theory Spec2Isabelle
  imports Main
begin

section \<open>The update queue of the reconciler (ReactUpdateQueue.js)\<close>

text \<open>
  The module keeps, for every fiber, a header object (an \<open>UpdateQueue\<close>) over a singly
  linked list of \<open>Update\<close> records. Headers and records are JavaScript objects that are
  shared and mutated in place, so the embedding keeps them in an explicit store: a
  record lives at an address, a reference is an address, \<open>null\<close> is \<open>None\<close>, and every
  function takes the store and returns the store it leaves behind.

  The embedding is of the production build (\<open>__DEV__\<close> false): the warning for an update
  scheduled inside an update function, the second call of a payload under the debug
  flags and \<open>currentlyProcessingQueue\<close> are development-only and write nothing that
  the functions below read.
\<close>

subsection \<open>Values\<close>

text \<open>
  State, props and instances are JavaScript values. Objects are taken by value, as the
  finite map from their own enumerable keys to values.
\<close>

datatype jsval =
    JUndefined
  | JNull
  | JBool bool
  | JNum int
  | JStr string
  | JObj "string \<Rightarrow> jsval option"

text \<open>
  \<open>update.payload\<close> is either a value or an updater function; the updater is called as
  \<open>payload.call(instance, prevState, nextProps)\<close>. Updaters are taken to be pure and to
  return (the module's own warning says: "Update functions should be pure, with zero
  side-effects").
\<close>

datatype payload =
    PValue jsval
  | PFunction "jsval \<Rightarrow> jsval \<Rightarrow> jsval \<Rightarrow> jsval"

text \<open>
  \<open>update.callback\<close> is whatever the caller stored: a function, named here by a number
  and by whether a call of it throws, or some other value (\<open>scheduleRootUpdate\<close> only
  warns about a callback that is not a function, and stores it all the same).
\<close>

datatype callback =
    CallbackFunction nat bool
  | CallbackOther jsval

datatype tag = UpdateState | ReplaceState | ForceUpdate | CaptureUpdate

text \<open>
  Modelled from the spec: the side-effect tags \<open>Callback\<close>, \<open>ShouldCapture\<close> and
  \<open>DidCapture\<close> are imported from \<open>shared/ReactSideEffectTags\<close>, which is not part of
  the sources; the spec calls \<open>effectFlags\<close> a "bitset including Callback,
  ShouldCapture, DidCapture". The bitset is the set of its flags: \<open>x |= F\<close> inserts
  \<open>F\<close>, \<open>x & ~F\<close> removes it.
\<close>

datatype sideEffectTag = Callback | ShouldCapture | DidCapture | OtherEffect nat

text \<open>
  Modelled from the spec: \<open>NoWork\<close> is imported from \<open>ReactFiberExpirationTime\<close>, which
  is not part of the sources; the spec calls it the sentinel for "no remaining work"
  and has the residual priority be the maximum of the priorities still pending, so it
  is the least expiration time.
\<close>

definition NoWork :: nat where
  "NoWork = 0"

subsection \<open>Records and the store\<close>

record update =
  expirationTime :: nat
  tag :: tag
  payload :: payload
  callback :: "callback option"
  nextUpdate :: "nat option"
  nextEffect :: "nat option"

text \<open>The field \<open>next\<close> of the source is \<open>nextUpdate\<close> here.\<close>

record updateQueue =
  baseState :: jsval
  firstUpdate :: "nat option"
  lastUpdate :: "nat option"
  firstCapturedUpdate :: "nat option"
  lastCapturedUpdate :: "nat option"
  firstEffect :: "nat option"
  lastEffect :: "nat option"
  firstCapturedEffect :: "nat option"
  lastCapturedEffect :: "nat option"

text \<open>The fields of a fiber that this module reads or writes.\<close>

record fiber =
  alternate :: "nat option"
  fiberUpdateQueue :: "nat option"
  memoizedState :: jsval
  fiberExpirationTime :: nat
  effectTag :: "sideEffectTag set"

text \<open>
  The store. \<open>newUpdate\<close> and \<open>newQueue\<close> are the addresses the next object literal
  gets; \<open>hasForceUpdate\<close> is the module-level variable; \<open>called\<close> lists the calls
  \<open>callback.call(context)\<close> made so far, oldest first.
\<close>

record heap =
  updates :: "nat \<Rightarrow> update"
  queues :: "nat \<Rightarrow> updateQueue"
  fibers :: "nat \<Rightarrow> fiber"
  newUpdate :: nat
  newQueue :: nat
  hasForceUpdate :: bool
  called :: "(callback \<times> jsval) list"

definition writeUpdate :: "heap \<Rightarrow> nat \<Rightarrow> (update \<Rightarrow> update) \<Rightarrow> heap" where
  "writeUpdate h a f = h\<lparr>updates := (updates h)(a := f (updates h a))\<rparr>"

definition writeQueue :: "heap \<Rightarrow> nat \<Rightarrow> (updateQueue \<Rightarrow> updateQueue) \<Rightarrow> heap" where
  "writeQueue h a f = h\<lparr>queues := (queues h)(a := f (queues h a))\<rparr>"

definition writeFiber :: "heap \<Rightarrow> nat \<Rightarrow> (fiber \<Rightarrow> fiber) \<Rightarrow> heap" where
  "writeFiber h a f = h\<lparr>fibers := (fibers h)(a := f (fibers h a))\<rparr>"

subsection \<open>Creating queues and updates\<close>

definition createUpdateQueue :: "heap \<Rightarrow> jsval \<Rightarrow> heap \<times> nat" where
  "createUpdateQueue h bs =
     (let queue = newQueue h in
      (h\<lparr>queues := (queues h)(queue :=
            \<lparr>baseState = bs,
             firstUpdate = None, lastUpdate = None,
             firstCapturedUpdate = None, lastCapturedUpdate = None,
             firstEffect = None, lastEffect = None,
             firstCapturedEffect = None, lastCapturedEffect = None\<rparr>),
          newQueue := Suc queue\<rparr>,
       queue))"

definition cloneUpdateQueue :: "heap \<Rightarrow> nat \<Rightarrow> heap \<times> nat" where
  "cloneUpdateQueue h currentQueue =
     (let queue = newQueue h in
      (h\<lparr>queues := (queues h)(queue :=
            \<lparr>baseState = baseState (queues h currentQueue),
             firstUpdate = firstUpdate (queues h currentQueue),
             lastUpdate = lastUpdate (queues h currentQueue),
             firstCapturedUpdate = None, lastCapturedUpdate = None,
             firstEffect = None, lastEffect = None,
             firstCapturedEffect = None, lastCapturedEffect = None\<rparr>),
          newQueue := Suc queue\<rparr>,
       queue))"

definition createUpdate :: "heap \<Rightarrow> nat \<Rightarrow> heap \<times> nat" where
  "createUpdate h t =
     (let u = newUpdate h in
      (h\<lparr>updates := (updates h)(u :=
            \<lparr>expirationTime = t, tag = UpdateState, payload = PValue JNull,
             callback = None, nextUpdate = None, nextEffect = None\<rparr>),
          newUpdate := Suc u\<rparr>,
       u))"

subsection \<open>Enqueueing\<close>

definition appendUpdateToQueue :: "heap \<Rightarrow> nat \<Rightarrow> nat \<Rightarrow> heap" where
  "appendUpdateToQueue h queue u =
     (case lastUpdate (queues h queue) of
        None \<Rightarrow> writeQueue h queue (\<lambda>q. q\<lparr>firstUpdate := Some u, lastUpdate := Some u\<rparr>)
      | Some l \<Rightarrow>
          writeQueue (writeUpdate h l (\<lambda>r. r\<lparr>nextUpdate := Some u\<rparr>)) queue
            (\<lambda>q. q\<lparr>lastUpdate := Some u\<rparr>))"

text \<open>
  The first half of \<open>enqueueUpdate\<close>: the queues of the two owners, created or cloned
  where one is missing. The result is the store, \<open>queue1\<close> and \<open>queue2\<close>.
\<close>

definition enqueueUpdate_queues :: "heap \<Rightarrow> nat \<Rightarrow> heap \<times> nat \<times> nat option" where
  "enqueueUpdate_queues h fib =
     (case alternate (fibers h fib) of
        None \<Rightarrow>
          (case fiberUpdateQueue (fibers h fib) of
             None \<Rightarrow>
               (let (h1, queue1) = createUpdateQueue h (memoizedState (fibers h fib)) in
                (writeFiber h1 fib (\<lambda>f. f\<lparr>fiberUpdateQueue := Some queue1\<rparr>), queue1, None))
           | Some queue1 \<Rightarrow> (h, queue1, None))
      | Some alt \<Rightarrow>
          (case fiberUpdateQueue (fibers h fib) of
             None \<Rightarrow>
               (case fiberUpdateQueue (fibers h alt) of
                  None \<Rightarrow>
                    (let (h1, queue1) = createUpdateQueue h (memoizedState (fibers h fib));
                         h2 = writeFiber h1 fib (\<lambda>f. f\<lparr>fiberUpdateQueue := Some queue1\<rparr>);
                         (h3, queue2) = createUpdateQueue h2 (memoizedState (fibers h2 alt));
                         h4 = writeFiber h3 alt (\<lambda>f. f\<lparr>fiberUpdateQueue := Some queue2\<rparr>)
                     in (h4, queue1, Some queue2))
                | Some queue2 \<Rightarrow>
                    (let (h1, queue1) = cloneUpdateQueue h queue2 in
                     (writeFiber h1 fib (\<lambda>f. f\<lparr>fiberUpdateQueue := Some queue1\<rparr>),
                      queue1, Some queue2)))
           | Some queue1 \<Rightarrow>
               (case fiberUpdateQueue (fibers h alt) of
                  None \<Rightarrow>
                    (let (h1, queue2) = cloneUpdateQueue h queue1 in
                     (writeFiber h1 alt (\<lambda>f. f\<lparr>fiberUpdateQueue := Some queue2\<rparr>),
                      queue1, Some queue2))
                | Some queue2 \<Rightarrow> (h, queue1, Some queue2))))"

definition enqueueUpdate :: "heap \<Rightarrow> nat \<Rightarrow> nat \<Rightarrow> heap" where
  "enqueueUpdate h fib u =
     (let (h1, queue1, q2) = enqueueUpdate_queues h fib in
      case q2 of
        None \<Rightarrow> appendUpdateToQueue h1 queue1 u
      | Some queue2 \<Rightarrow>
          if queue1 = queue2 then appendUpdateToQueue h1 queue1 u
          else if lastUpdate (queues h1 queue1) = None \<or> lastUpdate (queues h1 queue2) = None
          then appendUpdateToQueue (appendUpdateToQueue h1 queue1 u) queue2 u
          else writeQueue (appendUpdateToQueue h1 queue1 u) queue2
                 (\<lambda>q. q\<lparr>lastUpdate := Some u\<rparr>))"

definition ensureWorkInProgressQueueIsAClone :: "heap \<Rightarrow> nat \<Rightarrow> nat \<Rightarrow> heap \<times> nat" where
  "ensureWorkInProgressQueueIsAClone h workInProgress queue =
     (case alternate (fibers h workInProgress) of
        None \<Rightarrow> (h, queue)
      | Some current \<Rightarrow>
          if Some queue = fiberUpdateQueue (fibers h current)
          then (let (h1, queue') = cloneUpdateQueue h queue in
                (writeFiber h1 workInProgress (\<lambda>f. f\<lparr>fiberUpdateQueue := Some queue'\<rparr>), queue'))
          else (h, queue))"

definition enqueueCapturedUpdate :: "heap \<Rightarrow> nat \<Rightarrow> nat \<Rightarrow> heap" where
  "enqueueCapturedUpdate h workInProgress u =
     (let (h1, workInProgressQueue) =
            (case fiberUpdateQueue (fibers h workInProgress) of
               None \<Rightarrow>
                 (let (h', q) = createUpdateQueue h (memoizedState (fibers h workInProgress)) in
                  (writeFiber h' workInProgress (\<lambda>f. f\<lparr>fiberUpdateQueue := Some q\<rparr>), q))
             | Some q \<Rightarrow> ensureWorkInProgressQueueIsAClone h workInProgress q)
      in case lastCapturedUpdate (queues h1 workInProgressQueue) of
           None \<Rightarrow>
             writeQueue h1 workInProgressQueue
               (\<lambda>q. q\<lparr>firstCapturedUpdate := Some u, lastCapturedUpdate := Some u\<rparr>)
         | Some l \<Rightarrow>
             writeQueue (writeUpdate h1 l (\<lambda>r. r\<lparr>nextUpdate := Some u\<rparr>)) workInProgressQueue
               (\<lambda>q. q\<lparr>lastCapturedUpdate := Some u\<rparr>))"

subsection \<open>Applying one update\<close>

text \<open>
  \<open>Object.assign({}, prevState, partialState)\<close> copies the own enumerable properties of
  each source into a new object, the later source winning. An object has the properties
  it has; a string has one property per character, keyed by the decimal index; the other
  primitives, \<open>null\<close> and \<open>undefined\<close> have none.
\<close>

fun decimal :: "nat \<Rightarrow> string" where
  "decimal n =
     (if n < 10 then [char_of (48 + n)] else decimal (n div 10) @ [char_of (48 + n mod 10)])"

declare decimal.simps [simp del]

fun ownProperties :: "jsval \<Rightarrow> string \<Rightarrow> jsval option" where
  "ownProperties (JObj m) = m"
| "ownProperties (JStr s) = map_of (map (\<lambda>i. (decimal i, JStr [s ! i])) [0..<length s])"
| "ownProperties _ = Map.empty"

definition objectAssign :: "jsval \<Rightarrow> jsval \<Rightarrow> jsval" where
  "objectAssign prevState partialState =
     JObj (Map.empty ++ ownProperties prevState ++ ownProperties partialState)"

text \<open>The block of \<open>case UpdateState\<close>, which \<open>case CaptureUpdate\<close> falls through to.\<close>

definition mergePartialState :: "payload \<Rightarrow> jsval \<Rightarrow> jsval \<Rightarrow> jsval \<Rightarrow> jsval" where
  "mergePartialState p prevState nextProps instance =
     (let partialState =
            (case p of
               PFunction f \<Rightarrow> f instance prevState nextProps
             | PValue v \<Rightarrow> v)
      in case partialState of
           JNull \<Rightarrow> prevState
         | JUndefined \<Rightarrow> prevState
         | _ \<Rightarrow> objectAssign prevState partialState)"

definition getStateFromUpdate ::
  "heap \<Rightarrow> nat \<Rightarrow> nat \<Rightarrow> nat \<Rightarrow> jsval \<Rightarrow> jsval \<Rightarrow> jsval \<Rightarrow> heap \<times> jsval" where
  "getStateFromUpdate h workInProgress queue u prevState nextProps instance =
     (case tag (updates h u) of
        ReplaceState \<Rightarrow>
          (case payload (updates h u) of
             PFunction f \<Rightarrow> (h, f instance prevState nextProps)
           | PValue v \<Rightarrow> (h, v))
      | CaptureUpdate \<Rightarrow>
          (let h1 = writeFiber h workInProgress
                      (\<lambda>f. f\<lparr>effectTag := (effectTag f - {ShouldCapture}) \<union> {DidCapture}\<rparr>)
           in (h1, mergePartialState (payload (updates h1 u)) prevState nextProps instance))
      | UpdateState \<Rightarrow>
          (h, mergePartialState (payload (updates h u)) prevState nextProps instance)
      | ForceUpdate \<Rightarrow> (h\<lparr>hasForceUpdate := True\<rparr>, prevState))"

subsection \<open>Processing a queue\<close>

text \<open>The local variables of \<open>processUpdateQueue\<close> that its two loops change.\<close>

record locals =
  newBaseState :: jsval
  newFirstUpdate :: "nat option"
  newFirstCapturedUpdate :: "nat option"
  newExpirationTime :: nat
  resultState :: jsval

text \<open>
  The part of both loop bodies that runs for an update of sufficient priority once its
  state is computed: an update with a callback is put on an effect list, the normal one
  (\<open>captured\<close> false) or the captured one.
\<close>

definition pushEffect :: "heap \<Rightarrow> nat \<Rightarrow> nat \<Rightarrow> nat \<Rightarrow> bool \<Rightarrow> heap" where
  "pushEffect h workInProgress queue u captured =
     (case callback (updates h u) of
        None \<Rightarrow> h
      | Some cb \<Rightarrow>
          (let h1 = writeFiber h workInProgress (\<lambda>f. f\<lparr>effectTag := effectTag f \<union> {Callback}\<rparr>);
               h2 = writeUpdate h1 u (\<lambda>r. r\<lparr>nextEffect := None\<rparr>)
           in if captured then
                (case lastCapturedEffect (queues h2 queue) of
                   None \<Rightarrow>
                     writeQueue h2 queue
                       (\<lambda>q. q\<lparr>firstCapturedEffect := Some u, lastCapturedEffect := Some u\<rparr>)
                 | Some l \<Rightarrow>
                     writeQueue (writeUpdate h2 l (\<lambda>r. r\<lparr>nextEffect := Some u\<rparr>)) queue
                       (\<lambda>q. q\<lparr>lastCapturedEffect := Some u\<rparr>))
              else
                (case lastEffect (queues h2 queue) of
                   None \<Rightarrow>
                     writeQueue h2 queue (\<lambda>q. q\<lparr>firstEffect := Some u, lastEffect := Some u\<rparr>)
                 | Some l \<Rightarrow>
                     writeQueue (writeUpdate h2 l (\<lambda>r. r\<lparr>nextEffect := Some u\<rparr>)) queue
                       (\<lambda>q. q\<lparr>lastEffect := Some u\<rparr>))))"

text \<open>The body of the first loop, over the list of updates.\<close>

definition processUpdate ::
  "heap \<Rightarrow> nat \<Rightarrow> nat \<Rightarrow> jsval \<Rightarrow> jsval \<Rightarrow> nat \<Rightarrow> nat \<Rightarrow> locals \<Rightarrow> heap \<times> locals" where
  "processUpdate h workInProgress queue props instance renderExpirationTime u l =
     (let updateExpirationTime = expirationTime (updates h u) in
      if updateExpirationTime < renderExpirationTime then
        (let l1 = (if newFirstUpdate l = None
                   then l\<lparr>newFirstUpdate := Some u, newBaseState := resultState l\<rparr>
                   else l);
             l2 = (if newExpirationTime l1 < updateExpirationTime
                   then l1\<lparr>newExpirationTime := updateExpirationTime\<rparr>
                   else l1)
         in (h, l2))
      else
        (let (h1, s) = getStateFromUpdate h workInProgress queue u (resultState l) props instance
         in (pushEffect h1 workInProgress queue u False, l\<lparr>resultState := s\<rparr>)))"

text \<open>The body of the second loop, over the list of captured updates.\<close>

definition processCapturedUpdate ::
  "heap \<Rightarrow> nat \<Rightarrow> nat \<Rightarrow> jsval \<Rightarrow> jsval \<Rightarrow> nat \<Rightarrow> nat \<Rightarrow> locals \<Rightarrow> heap \<times> locals" where
  "processCapturedUpdate h workInProgress queue props instance renderExpirationTime u l =
     (let updateExpirationTime = expirationTime (updates h u) in
      if updateExpirationTime < renderExpirationTime then
        (let l1 = (if newFirstCapturedUpdate l = None
                   then (let l' = l\<lparr>newFirstCapturedUpdate := Some u\<rparr> in
                         if newFirstUpdate l' = None
                         then l'\<lparr>newBaseState := resultState l'\<rparr>
                         else l')
                   else l);
             l2 = (if newExpirationTime l1 < updateExpirationTime
                   then l1\<lparr>newExpirationTime := updateExpirationTime\<rparr>
                   else l1)
         in (h, l2))
      else
        (let (h1, s) = getStateFromUpdate h workInProgress queue u (resultState l) props instance
         in (pushEffect h1 workInProgress queue u True, l\<lparr>resultState := s\<rparr>)))"

text \<open>
  The two \<open>while (update !== null)\<close> loops. A list that runs into a cycle is walked for
  ever: the result is \<open>None\<close>.
\<close>

partial_function (option) processUpdates ::
  "heap \<Rightarrow> nat \<Rightarrow> nat \<Rightarrow> jsval \<Rightarrow> jsval \<Rightarrow> nat \<Rightarrow> nat option \<Rightarrow> locals \<Rightarrow> (heap \<times> locals) option"
where
  "processUpdates h workInProgress queue props instance renderExpirationTime upd l =
     (case upd of
        None \<Rightarrow> Some (h, l)
      | Some u \<Rightarrow>
          (case processUpdate h workInProgress queue props instance renderExpirationTime u l of
             (h1, l1) \<Rightarrow>
               processUpdates h1 workInProgress queue props instance renderExpirationTime
                 (nextUpdate (updates h1 u)) l1))"

partial_function (option) processCapturedUpdates ::
  "heap \<Rightarrow> nat \<Rightarrow> nat \<Rightarrow> jsval \<Rightarrow> jsval \<Rightarrow> nat \<Rightarrow> nat option \<Rightarrow> locals \<Rightarrow> (heap \<times> locals) option"
where
  "processCapturedUpdates h workInProgress queue props instance renderExpirationTime upd l =
     (case upd of
        None \<Rightarrow> Some (h, l)
      | Some u \<Rightarrow>
          (case processCapturedUpdate h workInProgress queue props instance
                  renderExpirationTime u l of
             (h1, l1) \<Rightarrow>
               processCapturedUpdates h1 workInProgress queue props instance
                 renderExpirationTime (nextUpdate (updates h1 u)) l1))"

text \<open>What \<open>processUpdateQueue\<close> does after the two loops.\<close>

definition finishProcessing :: "heap \<Rightarrow> nat \<Rightarrow> nat \<Rightarrow> locals \<Rightarrow> heap" where
  "finishProcessing h workInProgress queue l =
     (let h1 = (if newFirstUpdate l = None
                then writeQueue h queue (\<lambda>q. q\<lparr>lastUpdate := None\<rparr>)
                else h);
          h2 = (if newFirstCapturedUpdate l = None
                then writeQueue h1 queue (\<lambda>q. q\<lparr>lastCapturedUpdate := None\<rparr>)
                else writeFiber h1 workInProgress
                       (\<lambda>f. f\<lparr>effectTag := effectTag f \<union> {Callback}\<rparr>));
          l1 = (if newFirstUpdate l = None \<and> newFirstCapturedUpdate l = None
                then l\<lparr>newBaseState := resultState l\<rparr>
                else l);
          h3 = writeQueue h2 queue
                 (\<lambda>q. q\<lparr>baseState := newBaseState l1,
                         firstUpdate := newFirstUpdate l1,
                         firstCapturedUpdate := newFirstCapturedUpdate l1\<rparr>)
      in writeFiber h3 workInProgress
           (\<lambda>f. f\<lparr>fiberExpirationTime := newExpirationTime l1,
                   memoizedState := resultState l1\<rparr>))"

definition processUpdateQueue ::
  "heap \<Rightarrow> nat \<Rightarrow> nat \<Rightarrow> jsval \<Rightarrow> jsval \<Rightarrow> nat \<Rightarrow> heap option" where
  "processUpdateQueue h workInProgress queue0 props instance renderExpirationTime =
     (let (h1, queue) =
            ensureWorkInProgressQueueIsAClone (h\<lparr>hasForceUpdate := False\<rparr>) workInProgress queue0;
          l0 = \<lparr>newBaseState = baseState (queues h1 queue),
                newFirstUpdate = None,
                newFirstCapturedUpdate = None,
                newExpirationTime = NoWork,
                resultState = baseState (queues h1 queue)\<rparr>
      in case processUpdates h1 workInProgress queue props instance renderExpirationTime
                (firstUpdate (queues h1 queue)) l0 of
           None \<Rightarrow> None
         | Some (h2, l1) \<Rightarrow>
             (case processCapturedUpdates h2 workInProgress queue props instance
                     renderExpirationTime (firstCapturedUpdate (queues h2 queue)) l1 of
                None \<Rightarrow> None
              | Some (h3, l2) \<Rightarrow> Some (finishProcessing h3 workInProgress queue l2)))"

definition resetHasForceUpdateBeforeProcessing :: "heap \<Rightarrow> heap" where
  "resetHasForceUpdateBeforeProcessing h = h\<lparr>hasForceUpdate := False\<rparr>"

definition checkHasForceUpdateAfterProcessing :: "heap \<Rightarrow> bool" where
  "checkHasForceUpdateAfterProcessing h = hasForceUpdate h"

subsection \<open>Committing a queue\<close>

text \<open>
  A commit can fail: \<open>invariant\<close> throws for a callback that is not a function, and a
  callback may throw. The store is then left as it was at the throw.
\<close>

datatype error = InvariantViolation callback | CallbackThrew callback

type_synonym outcome = "(error \<times> heap) + heap"

definition callCallback :: "heap \<Rightarrow> callback \<Rightarrow> jsval \<Rightarrow> outcome" where
  "callCallback h cb context =
     (case cb of
        CallbackOther v \<Rightarrow> Inl (InvariantViolation cb, h)
      | CallbackFunction n throws \<Rightarrow>
          (let h1 = h\<lparr>called := called h @ [(cb, context)]\<rparr> in
           if throws then Inl (CallbackThrew cb, h1) else Inr h1))"

text \<open>
  The loop of \<open>commitUpdateEffects\<close> follows \<open>nextEffect\<close> until \<open>null\<close>; on a list that
  runs into a cycle it does not return.
\<close>

partial_function (option) commitUpdateEffects ::
  "heap \<Rightarrow> nat option \<Rightarrow> jsval \<Rightarrow> outcome option" where
  "commitUpdateEffects h effect instance =
     (case effect of
        None \<Rightarrow> Some (Inr h)
      | Some e \<Rightarrow>
          (case callback (updates h e) of
             None \<Rightarrow> commitUpdateEffects h (nextEffect (updates h e)) instance
           | Some cb \<Rightarrow>
               (case callCallback (writeUpdate h e (\<lambda>r. r\<lparr>callback := None\<rparr>)) cb instance of
                  Inl err \<Rightarrow> Some (Inl err)
                | Inr h1 \<Rightarrow> commitUpdateEffects h1 (nextEffect (updates h1 e)) instance)))"

text \<open>The first statement of \<open>commitUpdateQueue\<close>: joining the captured list to the normal one.\<close>

definition joinCapturedUpdates :: "heap \<Rightarrow> nat \<Rightarrow> heap" where
  "joinCapturedUpdates h finishedQueue =
     (if firstCapturedUpdate (queues h finishedQueue) \<noteq> None then
        (let h1 = (case lastUpdate (queues h finishedQueue) of
                     None \<Rightarrow> h
                   | Some l \<Rightarrow>
                       writeQueue
                         (writeUpdate h l
                            (\<lambda>r. r\<lparr>nextUpdate := firstCapturedUpdate (queues h finishedQueue)\<rparr>))
                         finishedQueue
                         (\<lambda>q. q\<lparr>lastUpdate := lastCapturedUpdate q\<rparr>))
         in writeQueue h1 finishedQueue
              (\<lambda>q. q\<lparr>firstCapturedUpdate := None, lastCapturedUpdate := None\<rparr>))
      else h)"

definition commitUpdateQueue :: "heap \<Rightarrow> nat \<Rightarrow> nat \<Rightarrow> jsval \<Rightarrow> nat \<Rightarrow> outcome option" where
  "commitUpdateQueue h finishedWork finishedQueue instance renderExpirationTime =
     (let h1 = joinCapturedUpdates h finishedQueue in
      case commitUpdateEffects h1 (firstEffect (queues h1 finishedQueue)) instance of
        None \<Rightarrow> None
      | Some (Inl err) \<Rightarrow> Some (Inl err)
      | Some (Inr h2) \<Rightarrow>
          (let h3 = writeQueue h2 finishedQueue (\<lambda>q. q\<lparr>firstEffect := None, lastEffect := None\<rparr>)
           in case commitUpdateEffects h3 (firstCapturedEffect (queues h3 finishedQueue)) instance of
                None \<Rightarrow> None
              | Some (Inl err) \<Rightarrow> Some (Inl err)
              | Some (Inr h4) \<Rightarrow>
                  Some (Inr (writeQueue h4 finishedQueue
                               (\<lambda>q. q\<lparr>firstCapturedEffect := None,
                                       lastCapturedEffect := None\<rparr>)))))"

declare processUpdates.simps [code]
declare processCapturedUpdates.simps [code]
declare commitUpdateEffects.simps [code]

section \<open>Notions used to state the properties\<close>

subsection \<open>Linked lists in the store\<close>

text \<open>
  \<open>linked nxt p as\<close>: starting from the reference \<open>p\<close> and following the link \<open>nxt\<close>
  one visits exactly the addresses \<open>as\<close>, in this order, and then reaches \<open>null\<close>.
\<close>

primrec linked :: "(nat \<Rightarrow> nat option) \<Rightarrow> nat option \<Rightarrow> nat list \<Rightarrow> bool" where
  "linked nxt p [] = (p = None)"
| "linked nxt p (a # as) = (p = Some a \<and> linked nxt (nxt a) as)"

text \<open>The insertion list (field \<open>next\<close>) and the effect list (field \<open>nextEffect\<close>).\<close>

definition updateList :: "heap \<Rightarrow> nat option \<Rightarrow> nat list \<Rightarrow> bool" where
  "updateList h = linked (\<lambda>a. nextUpdate (updates h a))"

definition effectList :: "heap \<Rightarrow> nat option \<Rightarrow> nat list \<Rightarrow> bool" where
  "effectList h = linked (\<lambda>a. nextEffect (updates h a))"

subsection \<open>The state an update yields\<close>

text \<open>
  The value that \<open>getStateFromUpdate\<close> returns depends on the update record, the previous
  state, the props and the instance only (lemma \<open>getStateFromUpdate_state\<close> below).
\<close>

definition stateFromUpdate :: "update \<Rightarrow> jsval \<Rightarrow> jsval \<Rightarrow> jsval \<Rightarrow> jsval" where
  "stateFromUpdate r prevState nextProps instance =
     (case tag r of
        ReplaceState \<Rightarrow>
          (case payload r of
             PFunction f \<Rightarrow> f instance prevState nextProps
           | PValue v \<Rightarrow> v)
      | CaptureUpdate \<Rightarrow> mergePartialState (payload r) prevState nextProps instance
      | UpdateState \<Rightarrow> mergePartialState (payload r) prevState nextProps instance
      | ForceUpdate \<Rightarrow> prevState)"

text \<open>Applying the updates at the addresses \<open>us\<close>, in order, starting from \<open>s\<close>.\<close>

definition applyUpdates :: "heap \<Rightarrow> jsval \<Rightarrow> jsval \<Rightarrow> jsval \<Rightarrow> nat list \<Rightarrow> jsval" where
  "applyUpdates h props instance s us =
     foldl (\<lambda>s u. stateFromUpdate (updates h u) s props instance) s us"

subsection \<open>Scheduling an update\<close>

text \<open>
  What the callers of this module do to schedule an update (\<open>scheduleRootUpdate\<close> in
  ReactFiberReconciler.js): create the record, fill in its fields, enqueue it. The result
  is the store and the address of the new record.
\<close>

definition scheduleUpdate ::
  "heap \<Rightarrow> nat \<Rightarrow> nat \<Rightarrow> tag \<Rightarrow> payload \<Rightarrow> callback option \<Rightarrow> heap \<times> nat" where
  "scheduleUpdate h fib t tg p cb =
     (let (h1, u) = createUpdate h t;
          h2 = writeUpdate h1 u (\<lambda>r. r\<lparr>tag := tg, payload := p, callback := cb\<rparr>)
      in (enqueueUpdate h2 fib u, u))"

text \<open>
  The same for an update captured while rendering (\<open>throwException\<close> in the reconciler):
  create the record, fill in its fields, put it on the captured list of the
  work-in-progress fiber.
\<close>

definition scheduleCapturedUpdate ::
  "heap \<Rightarrow> nat \<Rightarrow> nat \<Rightarrow> tag \<Rightarrow> payload \<Rightarrow> callback option \<Rightarrow> heap \<times> nat" where
  "scheduleCapturedUpdate h fib t tg p cb =
     (let (h1, u) = createUpdate h t;
          h2 = writeUpdate h1 u (\<lambda>r. r\<lparr>tag := tg, payload := p, callback := cb\<rparr>)
      in (enqueueCapturedUpdate h2 fib u, u))"

subsection \<open>Stores for the scenarios\<close>

text \<open>
  A store in which nothing has been allocated: every fiber is alone (no alternate), has
  no queue, no pending work, no effect and the memoized state \<open>s\<close>.
\<close>

definition newStore :: "jsval \<Rightarrow> heap" where
  "newStore s =
     \<lparr>updates = (\<lambda>_. \<lparr>expirationTime = 0, tag = UpdateState, payload = PValue JNull,
                       callback = None, nextUpdate = None, nextEffect = None\<rparr>),
      queues = (\<lambda>_. \<lparr>baseState = JNull,
                      firstUpdate = None, lastUpdate = None,
                      firstCapturedUpdate = None, lastCapturedUpdate = None,
                      firstEffect = None, lastEffect = None,
                      firstCapturedEffect = None, lastCapturedEffect = None\<rparr>),
      fibers = (\<lambda>_. \<lparr>alternate = None, fiberUpdateQueue = None, memoizedState = s,
                      fiberExpirationTime = NoWork, effectTag = {}\<rparr>),
      newUpdate = 0, newQueue = 0, hasForceUpdate = False, called = []\<rparr>"

text \<open>
  The updater \<open>(prevState) => prevState + c\<close> on strings (on another previous state the
  model returns \<open>undefined\<close>; the scenarios never get there).
\<close>

definition appendLetter :: "string \<Rightarrow> payload" where
  "appendLetter c = PFunction (\<lambda>instance prevState nextProps.
     case prevState of JStr s \<Rightarrow> JStr (s @ c) | _ \<Rightarrow> JUndefined)"

text \<open>
  Fiber 0 of a new store with state \<open>""\<close>, after scheduling the updates A, B, C and D with
  expiration times \<open>a\<close>, \<open>b\<close>, \<open>c\<close> and \<open>d\<close>. Each update replaces the state by the
  previous state with its letter appended (tag \<open>ReplaceState\<close>: under \<open>UpdateState\<close> the
  result of the updater would be merged into a new object by \<open>Object.assign\<close>, and the
  state would not be a string).
\<close>

definition lettersStore :: "nat \<Rightarrow> nat \<Rightarrow> nat \<Rightarrow> nat \<Rightarrow> heap" where
  "lettersStore a b c d =
     fst (scheduleUpdate
       (fst (scheduleUpdate
         (fst (scheduleUpdate
           (fst (scheduleUpdate (newStore (JStr [])) 0 a ReplaceState (appendLetter ''A'') None))
           0 b ReplaceState (appendLetter ''B'') None))
         0 c ReplaceState (appendLetter ''C'') None))
       0 d ReplaceState (appendLetter ''D'') None)"

text \<open>
  Fiber 0 of a new store with state \<open>""\<close>, after scheduling the updates A and B (expiration
  times \<open>a\<close> and \<open>b\<close>) and then capturing the updates C and D (expiration times \<open>c\<close> and
  \<open>d\<close>); each appends its letter, as above.
\<close>

definition capturedLettersStore :: "nat \<Rightarrow> nat \<Rightarrow> nat \<Rightarrow> nat \<Rightarrow> heap" where
  "capturedLettersStore a b c d =
     fst (scheduleCapturedUpdate
       (fst (scheduleCapturedUpdate
         (fst (scheduleUpdate
           (fst (scheduleUpdate (newStore (JStr [])) 0 a ReplaceState (appendLetter ''A'') None))
           0 b ReplaceState (appendLetter ''B'') None))
         0 c ReplaceState (appendLetter ''C'') None))
       0 d ReplaceState (appendLetter ''D'') None)"

text \<open>
  Two fibers that are each other's alternate: \<open>pairStore s\<close> is a new store in which the
  fibers 0 and 1 are such a pair. \<open>sharedStore\<close>: the pair after an update was scheduled
  on fiber 0 (which gave both fibers a queue holding it) and a second update record was
  created, not yet enqueued.
\<close>

definition pairStore :: "jsval \<Rightarrow> heap" where
  "pairStore s =
     writeFiber (writeFiber (newStore s) 0 (\<lambda>f. f\<lparr>alternate := Some 1\<rparr>)) 1
       (\<lambda>f. f\<lparr>alternate := Some 0\<rparr>)"

definition sharedStore :: heap where
  "sharedStore =
     fst (createUpdate
       (fst (scheduleUpdate (pairStore JNull) 0 1 UpdateState (PValue JNull) None)) 1)"

text \<open>
  \<open>workInProgressStore\<close>: the pair of fibers after the updates A and B (with the callbacks
  1 and 2) were scheduled on fiber 0, the current fiber, and fiber 1 was made its work in
  progress: \<open>createWorkInProgress\<close> (in ReactFiber.js) gives the work-in-progress fiber
  the queue of the current one, \<open>workInProgress.updateQueue = current.updateQueue\<close>.
\<close>

definition workInProgressStore :: heap where
  "workInProgressStore =
     writeFiber
       (fst (scheduleUpdate
         (fst (scheduleUpdate (pairStore (JStr [])) 0 1 ReplaceState (appendLetter ''A'')
                (Some (CallbackFunction 1 False))))
         0 1 ReplaceState (appendLetter ''B'') (Some (CallbackFunction 2 False))))
       1 (\<lambda>f. f\<lparr>fiberUpdateQueue := Some 0\<rparr>)"

subsection \<open>What a processing pass leaves alone\<close>

text \<open>
  \<open>sufficient h r u\<close>: the update at \<open>u\<close> has sufficient priority for a render at
  expiration time \<open>r\<close>, that is, the test \<open>updateExpirationTime < renderExpirationTime\<close>
  of the loops fails for it.

  \<open>processingFrame w q h h'\<close> holds of the stores before and after a step of the loops of
  \<open>processUpdateQueue\<close> on fiber \<open>w\<close> and queue \<open>q\<close>: of an update record only
  \<open>nextEffect\<close> may differ, of the queue \<open>q\<close> only the effect pointers, of the fiber
  \<open>w\<close> only \<open>effectTag\<close>, and nothing of another queue or fiber. \<open>passFrame\<close> is
  the same for a whole pass, which also writes the other fields of \<open>q\<close> and the state and
  expiration time of \<open>w\<close>.

  \<open>afterUpdates\<close> and \<open>afterCapturedUpdates\<close> run the bodies of the two loops over a
  list of addresses and keep the local variables only.
\<close>

definition sufficient :: "heap \<Rightarrow> nat \<Rightarrow> nat \<Rightarrow> bool" where
  "sufficient h r u \<longleftrightarrow> \<not> expirationTime (updates h u) < r"

definition processingFrame :: "nat \<Rightarrow> nat \<Rightarrow> heap \<Rightarrow> heap \<Rightarrow> bool" where
  "processingFrame w q h h' \<longleftrightarrow>
     (\<forall>a. expirationTime (updates h' a) = expirationTime (updates h a) \<and>
          tag (updates h' a) = tag (updates h a) \<and>
          payload (updates h' a) = payload (updates h a) \<and>
          callback (updates h' a) = callback (updates h a) \<and>
          nextUpdate (updates h' a) = nextUpdate (updates h a)) \<and>
     (\<forall>q'. q' \<noteq> q \<longrightarrow> queues h' q' = queues h q') \<and>
     baseState (queues h' q) = baseState (queues h q) \<and>
     firstUpdate (queues h' q) = firstUpdate (queues h q) \<and>
     lastUpdate (queues h' q) = lastUpdate (queues h q) \<and>
     firstCapturedUpdate (queues h' q) = firstCapturedUpdate (queues h q) \<and>
     lastCapturedUpdate (queues h' q) = lastCapturedUpdate (queues h q) \<and>
     (\<forall>f. f \<noteq> w \<longrightarrow> fibers h' f = fibers h f) \<and>
     alternate (fibers h' w) = alternate (fibers h w) \<and>
     fiberUpdateQueue (fibers h' w) = fiberUpdateQueue (fibers h w) \<and>
     memoizedState (fibers h' w) = memoizedState (fibers h w) \<and>
     fiberExpirationTime (fibers h' w) = fiberExpirationTime (fibers h w) \<and>
     newUpdate h' = newUpdate h \<and> newQueue h' = newQueue h \<and> called h' = called h"

definition passFrame :: "nat \<Rightarrow> nat \<Rightarrow> heap \<Rightarrow> heap \<Rightarrow> bool" where
  "passFrame w q h h' \<longleftrightarrow>
     (\<forall>a. expirationTime (updates h' a) = expirationTime (updates h a) \<and>
          tag (updates h' a) = tag (updates h a) \<and>
          payload (updates h' a) = payload (updates h a) \<and>
          callback (updates h' a) = callback (updates h a) \<and>
          nextUpdate (updates h' a) = nextUpdate (updates h a)) \<and>
     (\<forall>q'. q' \<noteq> q \<longrightarrow> queues h' q' = queues h q') \<and>
     (\<forall>f. f \<noteq> w \<longrightarrow> fibers h' f = fibers h f) \<and>
     alternate (fibers h' w) = alternate (fibers h w) \<and>
     fiberUpdateQueue (fibers h' w) = fiberUpdateQueue (fibers h w) \<and>
     newUpdate h' = newUpdate h \<and> newQueue h' = newQueue h \<and> called h' = called h"

primrec afterUpdates ::
  "heap \<Rightarrow> nat \<Rightarrow> nat \<Rightarrow> jsval \<Rightarrow> jsval \<Rightarrow> nat \<Rightarrow> nat list \<Rightarrow> locals \<Rightarrow> locals" where
  "afterUpdates h w q p i r [] l = l"
| "afterUpdates h w q p i r (u # us) l =
     afterUpdates h w q p i r us (snd (processUpdate h w q p i r u l))"

primrec afterCapturedUpdates ::
  "heap \<Rightarrow> nat \<Rightarrow> nat \<Rightarrow> jsval \<Rightarrow> jsval \<Rightarrow> nat \<Rightarrow> nat list \<Rightarrow> locals \<Rightarrow> locals" where
  "afterCapturedUpdates h w q p i r [] l = l"
| "afterCapturedUpdates h w q p i r (u # us) l =
     afterCapturedUpdates h w q p i r us (snd (processCapturedUpdate h w q p i r u l))"

subsection \<open>Processing a fiber at several render expiration times\<close>

text \<open>
  One pass per render expiration time of the list, each on the queue that the fiber has
  by then (the reconciler calls \<open>processUpdateQueue\<close> for a fiber that has a queue).
\<close>

fun processAtEach :: "heap \<Rightarrow> nat \<Rightarrow> jsval \<Rightarrow> jsval \<Rightarrow> nat list \<Rightarrow> heap option" where
  "processAtEach h w p i [] = Some h"
| "processAtEach h w p i (r # rs) =
     (case fiberUpdateQueue (fibers h w) of
        None \<Rightarrow> processAtEach h w p i rs
      | Some q \<Rightarrow>
          (case processUpdateQueue h w q p i r of
             None \<Rightarrow> None
           | Some h' \<Rightarrow> processAtEach h' w p i rs))"

text \<open>\<open>sameRecords h h'\<close>: no update record differs but in \<open>nextEffect\<close>.\<close>

definition sameRecords :: "heap \<Rightarrow> heap \<Rightarrow> bool" where
  "sameRecords h h' \<longleftrightarrow>
     (\<forall>a. expirationTime (updates h' a) = expirationTime (updates h a) \<and>
          tag (updates h' a) = tag (updates h a) \<and>
          payload (updates h' a) = payload (updates h a) \<and>
          callback (updates h' a) = callback (updates h a) \<and>
          nextUpdate (updates h' a) = nextUpdate (updates h a))"

subsection \<open>What a commit leaves alone, and what it calls\<close>

text \<open>
  \<open>storeOf out\<close>: the store that a commit leaves, whether it returned or threw.

  \<open>commitFrame h h'\<close> holds of the stores before and after \<open>commitUpdateEffects\<close>: of an
  update record only \<open>callback\<close> may differ, and then it is null; \<open>called\<close> may have
  grown; nothing else differs. \<open>commitQueueFrame q h h'\<close> is the same for what
  \<open>commitUpdateQueue\<close> does to a queue \<open>q\<close> after joining the captured list: it may also
  write the effect pointers of \<open>q\<close>.

  \<open>calledOnce h i rs h'\<close>: from \<open>h\<close> to \<open>h'\<close> the calls made are those of the callbacks
  of the records \<open>rs\<close>, in this order, each with \<open>i\<close> as receiver; the records are
  distinct, each had a callback in \<open>h\<close> and has none in \<open>h'\<close>.

  \<open>returns cb\<close>: the callback is a function that does not throw; \<open>allReturn h es\<close>: so
  is every callback of the records \<open>es\<close>.
\<close>

definition storeOf :: "outcome \<Rightarrow> heap" where
  "storeOf out = (case out of Inl (err, h) \<Rightarrow> h | Inr h \<Rightarrow> h)"

definition commitFrame :: "heap \<Rightarrow> heap \<Rightarrow> bool" where
  "commitFrame h h' \<longleftrightarrow>
     (\<forall>a. expirationTime (updates h' a) = expirationTime (updates h a) \<and>
          tag (updates h' a) = tag (updates h a) \<and>
          payload (updates h' a) = payload (updates h a) \<and>
          nextUpdate (updates h' a) = nextUpdate (updates h a) \<and>
          nextEffect (updates h' a) = nextEffect (updates h a) \<and>
          (callback (updates h' a) = callback (updates h a) \<or>
           callback (updates h' a) = None)) \<and>
     queues h' = queues h \<and> fibers h' = fibers h \<and>
     newUpdate h' = newUpdate h \<and> newQueue h' = newQueue h \<and>
     hasForceUpdate h' = hasForceUpdate h"

definition commitQueueFrame :: "nat \<Rightarrow> heap \<Rightarrow> heap \<Rightarrow> bool" where
  "commitQueueFrame q h h' \<longleftrightarrow>
     (\<forall>a. expirationTime (updates h' a) = expirationTime (updates h a) \<and>
          tag (updates h' a) = tag (updates h a) \<and>
          payload (updates h' a) = payload (updates h a) \<and>
          nextUpdate (updates h' a) = nextUpdate (updates h a) \<and>
          nextEffect (updates h' a) = nextEffect (updates h a)) \<and>
     (\<forall>q'. q' \<noteq> q \<longrightarrow> queues h' q' = queues h q') \<and>
     baseState (queues h' q) = baseState (queues h q) \<and>
     firstUpdate (queues h' q) = firstUpdate (queues h q) \<and>
     lastUpdate (queues h' q) = lastUpdate (queues h q) \<and>
     firstCapturedUpdate (queues h' q) = firstCapturedUpdate (queues h q) \<and>
     lastCapturedUpdate (queues h' q) = lastCapturedUpdate (queues h q) \<and>
     fibers h' = fibers h \<and>
     newUpdate h' = newUpdate h \<and> newQueue h' = newQueue h \<and>
     hasForceUpdate h' = hasForceUpdate h"

definition calledOnce :: "heap \<Rightarrow> jsval \<Rightarrow> nat list \<Rightarrow> heap \<Rightarrow> bool" where
  "calledOnce h i rs h' \<longleftrightarrow>
     distinct rs \<and>
     (\<forall>e \<in> set rs. callback (updates h e) \<noteq> None \<and> callback (updates h' e) = None) \<and>
     called h' = called h @ map (\<lambda>e. (the (callback (updates h e)), i)) rs"

definition returns :: "callback \<Rightarrow> bool" where
  "returns cb = (case cb of CallbackFunction n throws \<Rightarrow> \<not> throws | CallbackOther v \<Rightarrow> False)"

definition allReturn :: "heap \<Rightarrow> nat list \<Rightarrow> bool" where
  "allReturn h es = (\<forall>e \<in> set es. \<forall>cb. callback (updates h e) = Some cb \<longrightarrow> returns cb)"

text \<open>
  Two more stores for the scenarios. \<open>callbackStore\<close>: fiber 0 after scheduling A and B at
  expiration time 1, with the callbacks 1 and 2 (functions that return), and processing at
  1. \<open>skippedCaptureStore\<close>: \<open>capturedLettersStore 2 2 1 2\<close> after processing at 2, which
  applies A, B and D and skips the captured update C.
\<close>

definition callbackStore :: heap where
  "callbackStore =
     the (processUpdateQueue
       (fst (scheduleUpdate
         (fst (scheduleUpdate (newStore (JStr [])) 0 1 ReplaceState (appendLetter ''A'')
                (Some (CallbackFunction 1 False))))
         0 1 ReplaceState (appendLetter ''B'') (Some (CallbackFunction 2 False))))
       0 0 JNull JNull 1)"

definition skippedCaptureStore :: heap where
  "skippedCaptureStore = the (processUpdateQueue (capturedLettersStore 2 2 1 2) 0 0 JNull JNull 2)"

subsection \<open>Sequences of calls on a node\<close>

text \<open>
  \<open>queueList h q xs\<close>: the list of updates of the queue \<open>q\<close> is \<open>xs\<close>, it ends in null,
  and \<open>lastUpdate\<close> is its last record (null when the list is empty).
\<close>

definition queueList :: "heap \<Rightarrow> nat \<Rightarrow> nat list \<Rightarrow> bool" where
  "queueList h q xs \<longleftrightarrow>
     updateList h (firstUpdate (queues h q)) xs \<and>
     lastUpdate (queues h q) = (if xs = [] then None else Some (last xs))"

text \<open>
  What happens to a node \<open>w\<close> between two commits, one call at a time. \<open>Enqueue\<close>
  schedules a new update (expiration time, tag, payload, callback) on the node itself or,
  when the flag is set and the node has an alternate, on the alternate: \<open>enqueueUpdate\<close>
  is handed either fiber of the pair. \<open>Process\<close> is a pass of \<open>processUpdateQueue\<close> over
  the queue of \<open>w\<close> with the given props, instance and render expiration time; a node
  without a queue is not processed, as in the callers. \<open>performAll\<close> runs a sequence and
  is \<open>None\<close> when a pass does not return.
\<close>

datatype operation =
    Enqueue bool nat tag payload "callback option"
  | Process jsval jsval nat

fun perform :: "heap \<Rightarrow> nat \<Rightarrow> operation \<Rightarrow> heap option" where
  "perform h w (Enqueue onAlternate t tg p cb) =
     (let target = (if onAlternate
                    then (case alternate (fibers h w) of None \<Rightarrow> w | Some a \<Rightarrow> a)
                    else w)
      in Some (fst (scheduleUpdate h target t tg p cb)))"
| "perform h w (Process p i r) =
     (case fiberUpdateQueue (fibers h w) of
        None \<Rightarrow> Some h
      | Some q \<Rightarrow> processUpdateQueue h w q p i r)"

fun performAll :: "heap \<Rightarrow> nat \<Rightarrow> operation list \<Rightarrow> heap option" where
  "performAll h w [] = Some h"
| "performAll h w (x # xs) =
     (case perform h w x of None \<Rightarrow> None | Some h' \<Rightarrow> performAll h' w xs)"

text \<open>
  The requests of a sequence, in order, and the props and instances of its passes.
  \<open>request h u\<close> reads the four fields of the record \<open>u\<close> that a request fills in.
\<close>

fun requested :: "operation list \<Rightarrow> (nat \<times> tag \<times> payload \<times> callback option) list" where
  "requested [] = []"
| "requested (Enqueue onAlternate t tg p cb # ops) = (t, tg, p, cb) # requested ops"
| "requested (Process p i r # ops) = requested ops"

fun passes :: "operation list \<Rightarrow> (jsval \<times> jsval) set" where
  "passes [] = {}"
| "passes (Enqueue onAlternate t tg p cb # ops) = passes ops"
| "passes (Process p i r # ops) = insert (p, i) (passes ops)"

definition request :: "heap \<Rightarrow> nat \<Rightarrow> nat \<times> tag \<times> payload \<times> callback option" where
  "request h u = (expirationTime (updates h u), tag (updates h u), payload (updates h u),
     callback (updates h u))"

text \<open>
  \<open>applyEach h s as\<close>: the state \<open>s\<close> after the updates of \<open>as\<close>, in order, each with the
  props and the instance of the pass that applied it.
\<close>

definition applyEach :: "heap \<Rightarrow> jsval \<Rightarrow> (nat \<times> jsval \<times> jsval) list \<Rightarrow> jsval" where
  "applyEach h s as = foldl (\<lambda>s (u, p, i). stateFromUpdate (updates h u) s p i) s as"

text \<open>
  \<open>unscheduled h w\<close>: the node \<open>w\<close> has no pending update. Its alternate, if any, is
  another fiber that points back. Either the node has no queue, and then its alternate
  has none; or its queue is an allocated header with an empty list, no captured update
  and the memoized state as base state, and the queue of the alternate, if any, is an
  allocated header with an empty list (the same header, after \<open>createWorkInProgress\<close>, or
  another one).
\<close>

definition unscheduled :: "heap \<Rightarrow> nat \<Rightarrow> bool" where
  "unscheduled h w \<longleftrightarrow>
     (\<forall>a. alternate (fibers h w) = Some a \<longrightarrow> a \<noteq> w \<and> alternate (fibers h a) = Some w) \<and>
     (case fiberUpdateQueue (fibers h w) of
        None \<Rightarrow>
          (\<forall>a. alternate (fibers h w) = Some a \<longrightarrow> fiberUpdateQueue (fibers h a) = None)
      | Some q \<Rightarrow>
          q < newQueue h \<and>
          firstUpdate (queues h q) = None \<and> lastUpdate (queues h q) = None \<and>
          firstCapturedUpdate (queues h q) = None \<and>
          baseState (queues h q) = memoizedState (fibers h w) \<and>
          (\<forall>a qa. alternate (fibers h w) = Some a \<and>
                  fiberUpdateQueue (fibers h a) = Some qa \<longrightarrow>
             qa < newQueue h \<and>
             firstUpdate (queues h qa) = None \<and> lastUpdate (queues h qa) = None))"

text \<open>
  The invariant of such a sequence, for the node \<open>w\<close> that started with the state \<open>s0\<close>
  when the next record to allocate was \<open>n0\<close>, and the passes \<open>ps\<close> made so far. The
  records allocated since are \<open>n0, ..., newUpdate h - 1\<close>, in the order of the requests.
  They split into the records \<open>trb\<close> already folded into the base state and the list
  \<open>post\<close> of the queue; the memoized state is the initial state with the records \<open>trm\<close>
  applied, in the order of the requests, and \<open>trm\<close> holds every record of \<open>trb\<close>. The
  queue of the alternate, when it has one, holds \<open>pa @ post\<close>: the two lists share
  their tail. \<open>enqueueFrame\<close> is what appending to a queue leaves alone.
\<close>

definition nonLoss ::
  "nat \<Rightarrow> jsval \<Rightarrow> nat \<Rightarrow> (jsval \<times> jsval) set \<Rightarrow> heap \<Rightarrow> bool" where
  "nonLoss w s0 n0 ps h \<longleftrightarrow>
     (\<exists>trb trm post pa.
        n0 \<le> newUpdate h \<and>
        [n0..<newUpdate h] = map fst trb @ post \<and>
        memoizedState (fibers h w) = applyEach h s0 trm \<and>
        set trb \<subseteq> set trm \<and> snd ` set trm \<subseteq> ps \<and>
        sorted_wrt (<) (map fst trm) \<and>
        set (map fst trm) \<subseteq> {n0..<newUpdate h} \<and>
        set pa \<subseteq> {n0..<newUpdate h} \<and>
        (\<forall>a. alternate (fibers h w) = Some a \<longrightarrow>
           a \<noteq> w \<and> alternate (fibers h a) = Some w) \<and>
        (case fiberUpdateQueue (fibers h w) of
           None \<Rightarrow>
             trb = [] \<and> trm = [] \<and> post = [] \<and> pa = [] \<and>
             (\<forall>a. alternate (fibers h w) = Some a \<longrightarrow> fiberUpdateQueue (fibers h a) = None)
         | Some q \<Rightarrow>
             q < newQueue h \<and> firstCapturedUpdate (queues h q) = None \<and>
             queueList h q post \<and> baseState (queues h q) = applyEach h s0 trb \<and>
             (\<forall>a. alternate (fibers h w) = Some a \<longrightarrow>
                (case fiberUpdateQueue (fibers h a) of
                   None \<Rightarrow> pa = []
                 | Some qa \<Rightarrow> qa < newQueue h \<and> queueList h qa (pa @ post)))))"

definition enqueueFrame :: "heap \<Rightarrow> heap \<Rightarrow> bool" where
  "enqueueFrame h h' \<longleftrightarrow>
     (\<forall>a. expirationTime (updates h' a) = expirationTime (updates h a) \<and>
          tag (updates h' a) = tag (updates h a) \<and>
          payload (updates h' a) = payload (updates h a) \<and>
          callback (updates h' a) = callback (updates h a) \<and>
          nextEffect (updates h' a) = nextEffect (updates h a)) \<and>
     (\<forall>q. baseState (queues h' q) = baseState (queues h q) \<and>
          firstCapturedUpdate (queues h' q) = firstCapturedUpdate (queues h q)) \<and>
     fibers h' = fibers h \<and> newUpdate h' = newUpdate h \<and> newQueue h' = newQueue h"

section \<open>Properties\<close>

subsection \<open>Unfolding the loops\<close>

lemma processUpdates_None:
  "processUpdates h w q p i r None l = Some (h, l)"
  by (subst processUpdates.simps) simp

lemma processUpdates_Some:
  "processUpdates h w q p i r (Some u) l =
     (case processUpdate h w q p i r u l of
        (h1, l1) \<Rightarrow> processUpdates h1 w q p i r (nextUpdate (updates h1 u)) l1)"
  by (subst processUpdates.simps) simp

lemma processCapturedUpdates_None:
  "processCapturedUpdates h w q p i r None l = Some (h, l)"
  by (subst processCapturedUpdates.simps) simp

lemma processCapturedUpdates_Some:
  "processCapturedUpdates h w q p i r (Some u) l =
     (case processCapturedUpdate h w q p i r u l of
        (h1, l1) \<Rightarrow> processCapturedUpdates h1 w q p i r (nextUpdate (updates h1 u)) l1)"
  by (subst processCapturedUpdates.simps) simp

lemma commitUpdateEffects_None:
  "commitUpdateEffects h None i = Some (Inr h)"
  by (subst commitUpdateEffects.simps) simp

lemma commitUpdateEffects_Some:
  "commitUpdateEffects h (Some e) i =
     (case callback (updates h e) of
        None \<Rightarrow> commitUpdateEffects h (nextEffect (updates h e)) i
      | Some cb \<Rightarrow>
          (case callCallback (writeUpdate h e (\<lambda>r. r\<lparr>callback := None\<rparr>)) cb i of
             Inl err \<Rightarrow> Some (Inl err)
           | Inr h1 \<Rightarrow> commitUpdateEffects h1 (nextEffect (updates h1 e)) i))"
  by (subst commitUpdateEffects.simps) simp

text \<open>The definitions that a run on a concrete store unfolds.\<close>

lemmas run_simps =
  scheduleUpdate_def scheduleCapturedUpdate_def createUpdate_def
  enqueueUpdate_def enqueueUpdate_queues_def enqueueCapturedUpdate_def
  createUpdateQueue_def cloneUpdateQueue_def appendUpdateToQueue_def
  writeUpdate_def writeQueue_def writeFiber_def
  processUpdateQueue_def ensureWorkInProgressQueueIsAClone_def
  processUpdates_None processUpdates_Some
  processCapturedUpdates_None processCapturedUpdates_Some
  processUpdate_def processCapturedUpdate_def getStateFromUpdate_def pushEffect_def
  finishProcessing_def NoWork_def Let_def updateList_def effectList_def

subsection \<open>The loops of a processing pass\<close>

lemma processingFrame_refl: "processingFrame w q h h"
  by (simp add: processingFrame_def)

lemma processingFrame_trans:
  "processingFrame w q h1 h2 \<Longrightarrow> processingFrame w q h2 h3 \<Longrightarrow> processingFrame w q h1 h3"
  by (simp add: processingFrame_def)

lemma getStateFromUpdate_frame:
  "getStateFromUpdate h w q u s p i = (h', s') \<Longrightarrow> processingFrame w q h h'"
  by (auto simp: getStateFromUpdate_def processingFrame_def writeFiber_def split: tag.splits payload.splits)

lemma getStateFromUpdate_state:
  "snd (getStateFromUpdate h w q u s p i) = stateFromUpdate (updates h u) s p i"
  by (auto simp: getStateFromUpdate_def stateFromUpdate_def writeFiber_def split: tag.splits payload.splits)

lemma pushEffect_frame: "processingFrame w q h (pushEffect h w q u c)"
  by (auto simp: pushEffect_def processingFrame_def writeFiber_def writeUpdate_def writeQueue_def Let_def split: option.splits)

lemma processUpdate_frame:
  "processUpdate h w q p i r u l = (h', l') \<Longrightarrow> processingFrame w q h h'"
  by (auto simp: processUpdate_def Let_def split: if_splits prod.splits
      intro: processingFrame_trans [OF getStateFromUpdate_frame pushEffect_frame] processingFrame_refl)

lemma processCapturedUpdate_frame:
  "processCapturedUpdate h w q p i r u l = (h', l') \<Longrightarrow> processingFrame w q h h'"
  by (auto simp: processCapturedUpdate_def Let_def split: if_splits prod.splits
      intro: processingFrame_trans [OF getStateFromUpdate_frame pushEffect_frame] processingFrame_refl)

lemma stateFromUpdate_fields:
  "tag r' = tag r \<Longrightarrow> payload r' = payload r \<Longrightarrow> stateFromUpdate r' = stateFromUpdate r"
  by (simp add: stateFromUpdate_def fun_eq_iff split: tag.splits)

lemma processingFrame_state:
  "processingFrame w q h h' \<Longrightarrow> stateFromUpdate (updates h' u) = stateFromUpdate (updates h u)"
  by (rule stateFromUpdate_fields) (simp_all add: processingFrame_def)

lemma processUpdate_locals:
  "snd (processUpdate h w q p i r u l) =
     (if sufficient h r u
      then l\<lparr>resultState := stateFromUpdate (updates h u) (resultState l) p i\<rparr>
      else l\<lparr>newFirstUpdate := (case newFirstUpdate l of None \<Rightarrow> Some u | Some x \<Rightarrow> Some x),
             newBaseState := (case newFirstUpdate l of None \<Rightarrow> resultState l | Some x \<Rightarrow> newBaseState l),
             newExpirationTime := max (newExpirationTime l) (expirationTime (updates h u))\<rparr>)"
  using getStateFromUpdate_state [of h w q u "resultState l" p i]
  by (auto simp: processUpdate_def sufficient_def Let_def max_def split: prod.splits option.splits)

lemma processCapturedUpdate_locals:
  "snd (processCapturedUpdate h w q p i r u l) =
     (if sufficient h r u
      then l\<lparr>resultState := stateFromUpdate (updates h u) (resultState l) p i\<rparr>
      else l\<lparr>newFirstCapturedUpdate :=
               (case newFirstCapturedUpdate l of None \<Rightarrow> Some u | Some x \<Rightarrow> Some x),
             newBaseState :=
               (if newFirstCapturedUpdate l = None \<and> newFirstUpdate l = None
                then resultState l else newBaseState l),
             newExpirationTime := max (newExpirationTime l) (expirationTime (updates h u))\<rparr>)"
  using getStateFromUpdate_state [of h w q u "resultState l" p i]
  by (auto simp: processCapturedUpdate_def sufficient_def Let_def max_def split: prod.splits option.splits)

lemma processingFrame_sufficient:
  "processingFrame w q h h' \<Longrightarrow> sufficient h' r u = sufficient h r u"
  by (simp add: sufficient_def processingFrame_def)

lemma processingFrame_locals:
  assumes "processingFrame w q h h'"
  shows "snd (processUpdate h' w q p i r u l) = snd (processUpdate h w q p i r u l)"
    and "snd (processCapturedUpdate h' w q p i r u l) = snd (processCapturedUpdate h w q p i r u l)"
  using assms processingFrame_state [OF assms, of u] processingFrame_sufficient [OF assms, of r u]
  by (simp_all add: processUpdate_locals processCapturedUpdate_locals processingFrame_def)

lemma linked_cong:
  "(\<And>a. a \<in> set xs \<Longrightarrow> nxt' a = nxt a) \<Longrightarrow> linked nxt' p xs = linked nxt p xs"
  by (induction xs arbitrary: p) auto

lemma processingFrame_updateList:
  "processingFrame w q h h' \<Longrightarrow> updateList h' p xs = updateList h p xs"
  unfolding updateList_def by (rule linked_cong) (simp add: processingFrame_def)

lemma processUpdates_list:
  "updateList h p xs \<Longrightarrow> processingFrame w q h0 h \<Longrightarrow>
   \<exists>h'. processUpdates h w q pr i r p l = Some (h', afterUpdates h0 w q pr i r xs l) \<and>
        processingFrame w q h0 h'"
proof (induction xs arbitrary: h p l)
  case Nil
  then show ?case by (simp add: updateList_def processUpdates_None)
next
  case (Cons u us)
  obtain h1 l1 where step: "processUpdate h w q pr i r u l = (h1, l1)"
    by (cases "processUpdate h w q pr i r u l")
  have f1: "processingFrame w q h h1" using step by (rule processUpdate_frame)
  have f01: "processingFrame w q h0 h1" using Cons.prems(2) f1 by (rule processingFrame_trans)
  have l1: "l1 = snd (processUpdate h0 w q pr i r u l)"
    using step processingFrame_locals(1) [OF Cons.prems(2), of pr i r u l] by simp
  from Cons.prems(1) have p: "p = Some u" and tl: "updateList h (nextUpdate (updates h u)) us"
    by (simp_all add: updateList_def)
  have "nextUpdate (updates h1 u) = nextUpdate (updates h u)"
    using f1 by (simp add: processingFrame_def)
  with tl have tl1: "updateList h1 (nextUpdate (updates h1 u)) us"
    by (simp add: processingFrame_updateList [OF f1])
  from Cons.IH [OF tl1 f01, of l1] show ?case
    by (simp add: p processUpdates_Some step l1)
qed

lemma processCapturedUpdates_list:
  "updateList h p xs \<Longrightarrow> processingFrame w q h0 h \<Longrightarrow>
   \<exists>h'. processCapturedUpdates h w q pr i r p l =
          Some (h', afterCapturedUpdates h0 w q pr i r xs l) \<and>
        processingFrame w q h0 h'"
proof (induction xs arbitrary: h p l)
  case Nil
  then show ?case by (simp add: updateList_def processCapturedUpdates_None)
next
  case (Cons u us)
  obtain h1 l1 where step: "processCapturedUpdate h w q pr i r u l = (h1, l1)"
    by (cases "processCapturedUpdate h w q pr i r u l")
  have f1: "processingFrame w q h h1" using step by (rule processCapturedUpdate_frame)
  have f01: "processingFrame w q h0 h1" using Cons.prems(2) f1 by (rule processingFrame_trans)
  have l1: "l1 = snd (processCapturedUpdate h0 w q pr i r u l)"
    using step processingFrame_locals(2) [OF Cons.prems(2), of pr i r u l] by simp
  from Cons.prems(1) have p: "p = Some u" and tl: "updateList h (nextUpdate (updates h u)) us"
    by (simp_all add: updateList_def)
  have "nextUpdate (updates h1 u) = nextUpdate (updates h u)"
    using f1 by (simp add: processingFrame_def)
  with tl have tl1: "updateList h1 (nextUpdate (updates h1 u)) us"
    by (simp add: processingFrame_updateList [OF f1])
  from Cons.IH [OF tl1 f01, of l1] show ?case
    by (simp add: p processCapturedUpdates_Some step l1)
qed

lemma applyUpdates_Nil: "applyUpdates h p i s [] = s"
  by (simp add: applyUpdates_def)

lemma applyUpdates_Cons:
  "applyUpdates h p i s (u # us) = applyUpdates h p i (stateFromUpdate (updates h u) s p i) us"
  by (simp add: applyUpdates_def)

lemma applyUpdates_append:
  "applyUpdates h p i s (us @ vs) = applyUpdates h p i (applyUpdates h p i s us) vs"
  by (simp add: applyUpdates_def)

lemma afterUpdates_resultState:
  "resultState (afterUpdates h w q p i r xs l) =
     applyUpdates h p i (resultState l) (filter (sufficient h r) xs)"
  by (induction xs arbitrary: l)
     (simp_all add: processUpdate_locals applyUpdates_Nil applyUpdates_Cons)

lemma afterUpdates_newFirstUpdate:
  "newFirstUpdate (afterUpdates h w q p i r xs l) =
     (case newFirstUpdate l of
        Some x \<Rightarrow> Some x
      | None \<Rightarrow> List.find (\<lambda>u. \<not> sufficient h r u) xs)"
  by (induction xs arbitrary: l) (simp_all add: processUpdate_locals split: option.splits)

lemma afterUpdates_newBaseState:
  "newBaseState (afterUpdates h w q p i r xs l) =
     (if newFirstUpdate l = None \<and> \<not> list_all (sufficient h r) xs
      then applyUpdates h p i (resultState l) (takeWhile (sufficient h r) xs)
      else newBaseState l)"
  by (induction xs arbitrary: l)
     (auto simp add: processUpdate_locals applyUpdates_Nil applyUpdates_Cons split: option.splits)

lemma afterUpdates_newExpirationTime:
  "newExpirationTime (afterUpdates h w q p i r xs l) =
     fold max (map (\<lambda>u. expirationTime (updates h u)) (filter (\<lambda>u. \<not> sufficient h r u) xs))
       (newExpirationTime l)"
  by (induction xs arbitrary: l) (simp_all add: processUpdate_locals max.commute)

lemma afterUpdates_newFirstCapturedUpdate:
  "newFirstCapturedUpdate (afterUpdates h w q p i r xs l) = newFirstCapturedUpdate l"
  by (induction xs arbitrary: l) (simp_all add: processUpdate_locals)

lemma afterCapturedUpdates_resultState:
  "resultState (afterCapturedUpdates h w q p i r xs l) =
     applyUpdates h p i (resultState l) (filter (sufficient h r) xs)"
  by (induction xs arbitrary: l)
     (simp_all add: processCapturedUpdate_locals applyUpdates_Nil applyUpdates_Cons)

lemma afterCapturedUpdates_newFirstCapturedUpdate:
  "newFirstCapturedUpdate (afterCapturedUpdates h w q p i r xs l) =
     (case newFirstCapturedUpdate l of
        Some x \<Rightarrow> Some x
      | None \<Rightarrow> List.find (\<lambda>u. \<not> sufficient h r u) xs)"
  by (induction xs arbitrary: l) (simp_all add: processCapturedUpdate_locals split: option.splits)

lemma afterCapturedUpdates_newFirstUpdate:
  "newFirstUpdate (afterCapturedUpdates h w q p i r xs l) = newFirstUpdate l"
  by (induction xs arbitrary: l) (simp_all add: processCapturedUpdate_locals)

lemma afterCapturedUpdates_newBaseState:
  "newBaseState (afterCapturedUpdates h w q p i r xs l) =
     (if newFirstCapturedUpdate l = None \<and> newFirstUpdate l = None \<and>
         \<not> list_all (sufficient h r) xs
      then applyUpdates h p i (resultState l) (takeWhile (sufficient h r) xs)
      else newBaseState l)"
  by (induction xs arbitrary: l)
     (auto simp add: processCapturedUpdate_locals applyUpdates_Nil applyUpdates_Cons split: option.splits)

lemma afterCapturedUpdates_newExpirationTime:
  "newExpirationTime (afterCapturedUpdates h w q p i r xs l) =
     fold max (map (\<lambda>u. expirationTime (updates h u)) (filter (\<lambda>u. \<not> sufficient h r u) xs))
       (newExpirationTime l)"
  by (induction xs arbitrary: l) (simp_all add: processCapturedUpdate_locals max.commute)

lemma find_None_list_all: "(List.find (\<lambda>u. \<not> P u) xs = None) = list_all P xs"
  by (induction xs) auto

lemma takeWhile_append_all: "list_all P xs \<Longrightarrow> takeWhile P (xs @ ys) = xs @ takeWhile P ys"
  by (induction xs) auto

lemma takeWhile_append_not_all: "\<not> list_all P xs \<Longrightarrow> takeWhile P (xs @ ys) = takeWhile P xs"
  by (induction xs) auto

lemma takeWhile_all: "list_all P xs \<Longrightarrow> takeWhile P xs = xs"
  by (induction xs) auto

lemma filter_all: "list_all P xs \<Longrightarrow> filter P xs = xs"
  by (induction xs) auto

lemma finishProcessing_frame:
  "processingFrame w q h h' \<Longrightarrow> passFrame w q h (finishProcessing h' w q l)"
  by (simp add: processingFrame_def passFrame_def finishProcessing_def Let_def
      writeQueue_def writeFiber_def)

lemma finishProcessing_queue:
  "queues (finishProcessing h w q l) q =
     (queues h q)
       \<lparr>baseState := (if newFirstUpdate l = None \<and> newFirstCapturedUpdate l = None
                       then resultState l else newBaseState l),
        firstUpdate := newFirstUpdate l,
        lastUpdate := (if newFirstUpdate l = None then None else lastUpdate (queues h q)),
        firstCapturedUpdate := newFirstCapturedUpdate l,
        lastCapturedUpdate := (if newFirstCapturedUpdate l = None then None
                               else lastCapturedUpdate (queues h q))\<rparr>"
  by (simp add: finishProcessing_def Let_def writeQueue_def writeFiber_def)

lemma finishProcessing_fiber:
  "memoizedState (fibers (finishProcessing h w q l) w) = resultState l \<and>
   fiberExpirationTime (fibers (finishProcessing h w q l) w) = newExpirationTime l"
  by (simp add: finishProcessing_def Let_def writeQueue_def writeFiber_def)

lemma processUpdateQueue_lists:
  assumes ens: "ensureWorkInProgressQueueIsAClone (h\<lparr>hasForceUpdate := False\<rparr>) w q0 = (h1, q)"
    and xs: "updateList h1 (firstUpdate (queues h1 q)) xs"
    and ys: "updateList h1 (firstCapturedUpdate (queues h1 q)) ys"
  shows "\<exists>h'. processUpdateQueue h w q0 p i r = Some h' \<and>
     passFrame w q h1 h' \<and>
     baseState (queues h' q) =
       applyUpdates h1 p i (baseState (queues h1 q)) (takeWhile (sufficient h1 r) (xs @ ys)) \<and>
     memoizedState (fibers h' w) =
       applyUpdates h1 p i (baseState (queues h1 q)) (filter (sufficient h1 r) (xs @ ys)) \<and>
     firstUpdate (queues h' q) = List.find (\<lambda>u. \<not> sufficient h1 r u) xs \<and>
     lastUpdate (queues h' q) =
       (if list_all (sufficient h1 r) xs then None else lastUpdate (queues h1 q)) \<and>
     firstCapturedUpdate (queues h' q) = List.find (\<lambda>u. \<not> sufficient h1 r u) ys \<and>
     lastCapturedUpdate (queues h' q) =
       (if list_all (sufficient h1 r) ys then None else lastCapturedUpdate (queues h1 q)) \<and>
     fiberExpirationTime (fibers h' w) =
       fold max (map (\<lambda>u. expirationTime (updates h1 u))
                  (filter (\<lambda>u. \<not> sufficient h1 r u) (xs @ ys))) NoWork"
proof -
  define l0 where "l0 = \<lparr>newBaseState = baseState (queues h1 q), newFirstUpdate = None,
     newFirstCapturedUpdate = None, newExpirationTime = NoWork,
     resultState = baseState (queues h1 q)\<rparr>"
  define l1 where "l1 = afterUpdates h1 w q p i r xs l0"
  define l2 where "l2 = afterCapturedUpdates h1 w q p i r ys l1"
  obtain h2 where loop1: "processUpdates h1 w q p i r (firstUpdate (queues h1 q)) l0 = Some (h2, l1)"
    and f2: "processingFrame w q h1 h2"
    using processUpdates_list [OF xs processingFrame_refl, of w q p i r l0] l1_def by blast
  have ys2: "updateList h2 (firstCapturedUpdate (queues h2 q)) ys"
    using ys f2 by (simp add: processingFrame_updateList [OF f2]) (simp add: processingFrame_def)
  obtain h3 where loop2:
      "processCapturedUpdates h2 w q p i r (firstCapturedUpdate (queues h2 q)) l1 = Some (h3, l2)"
    and f3: "processingFrame w q h1 h3"
    using processCapturedUpdates_list [OF ys2 f2, of p i r l1] l2_def by blast
  have run: "processUpdateQueue h w q0 p i r = Some (finishProcessing h3 w q l2)"
    by (simp add: processUpdateQueue_def ens l0_def [symmetric] loop1 loop2)
  have nfu: "newFirstUpdate l2 = List.find (\<lambda>u. \<not> sufficient h1 r u) xs"
    by (simp add: l2_def l1_def l0_def afterCapturedUpdates_newFirstUpdate afterUpdates_newFirstUpdate)
  have nfc: "newFirstCapturedUpdate l2 = List.find (\<lambda>u. \<not> sufficient h1 r u) ys"
    by (simp add: l2_def l1_def l0_def afterCapturedUpdates_newFirstCapturedUpdate
        afterUpdates_newFirstCapturedUpdate)
  have rs: "resultState l2 =
      applyUpdates h1 p i (baseState (queues h1 q)) (filter (sufficient h1 r) (xs @ ys))"
    by (simp add: l2_def l1_def l0_def afterCapturedUpdates_resultState afterUpdates_resultState
        applyUpdates_append)
  have c1: "(newFirstUpdate l2 = None) = list_all (sufficient h1 r) xs"
    by (simp add: nfu find_None_list_all)
  have c2: "(newFirstCapturedUpdate l2 = None) = list_all (sufficient h1 r) ys"
    by (simp add: nfc find_None_list_all)
  have nb1: "newBaseState l1 =
      (if list_all (sufficient h1 r) xs then baseState (queues h1 q)
       else applyUpdates h1 p i (baseState (queues h1 q)) (takeWhile (sufficient h1 r) xs))"
    by (simp add: l1_def l0_def afterUpdates_newBaseState)
  have nb2: "newBaseState l2 =
      (if list_all (sufficient h1 r) xs \<and> \<not> list_all (sufficient h1 r) ys
       then applyUpdates h1 p i (resultState l1) (takeWhile (sufficient h1 r) ys)
       else newBaseState l1)"
  proof -
    have "newFirstUpdate l1 = List.find (\<lambda>u. \<not> sufficient h1 r u) xs"
      and "newFirstCapturedUpdate l1 = None"
      by (simp_all add: l1_def l0_def afterUpdates_newFirstUpdate
          afterUpdates_newFirstCapturedUpdate)
    then have "(newFirstCapturedUpdate l1 = None \<and> newFirstUpdate l1 = None \<and>
        \<not> list_all (sufficient h1 r) ys) =
        (list_all (sufficient h1 r) xs \<and> \<not> list_all (sufficient h1 r) ys)"
      by (simp add: find_None_list_all)
    then show ?thesis
      unfolding l2_def afterCapturedUpdates_newBaseState by simp
  qed
  have rs1: "resultState l1 =
      applyUpdates h1 p i (baseState (queues h1 q)) (filter (sufficient h1 r) xs)"
    by (simp add: l1_def l0_def afterUpdates_resultState)
  have nbs: "(if newFirstUpdate l2 = None \<and> newFirstCapturedUpdate l2 = None
              then resultState l2 else newBaseState l2) =
      applyUpdates h1 p i (baseState (queues h1 q)) (takeWhile (sufficient h1 r) (xs @ ys))"
  proof (cases "list_all (sufficient h1 r) xs")
    case True
    note allx = this
    show ?thesis
    proof (cases "list_all (sufficient h1 r) ys")
      case True
      with allx show ?thesis
        by (simp add: c1 c2 rs takeWhile_all filter_all)
    next
      case False
      with allx show ?thesis
        by (simp add: c1 c2 nb2 rs1 takeWhile_append_all filter_all applyUpdates_append)
    qed
  next
    case False
    then show ?thesis
      by (simp add: c1 c2 nb2 nb1 takeWhile_append_not_all)
  qed
  have net: "newExpirationTime l2 =
      fold max (map (\<lambda>u. expirationTime (updates h1 u))
                 (filter (\<lambda>u. \<not> sufficient h1 r u) (xs @ ys))) NoWork"
    by (simp add: l2_def l1_def l0_def afterCapturedUpdates_newExpirationTime
        afterUpdates_newExpirationTime)
  have q3: "lastUpdate (queues h3 q) = lastUpdate (queues h1 q)"
    "lastCapturedUpdate (queues h3 q) = lastCapturedUpdate (queues h1 q)"
    using f3 by (simp_all add: processingFrame_def)
  define h' where "h' = finishProcessing h3 w q l2"
  have "baseState (queues h' q) =
      (if newFirstUpdate l2 = None \<and> newFirstCapturedUpdate l2 = None
       then resultState l2 else newBaseState l2)"
    by (simp add: h'_def finishProcessing_queue)
  then have b: "baseState (queues h' q) =
      applyUpdates h1 p i (baseState (queues h1 q)) (takeWhile (sufficient h1 r) (xs @ ys))"
    by (simp only: nbs)
  have m: "memoizedState (fibers h' w) = resultState l2"
    and e: "fiberExpirationTime (fibers h' w) = newExpirationTime l2"
    using finishProcessing_fiber [of h3 w q l2] by (simp_all add: h'_def)
  have fu: "firstUpdate (queues h' q) = newFirstUpdate l2"
    and lu: "lastUpdate (queues h' q) =
      (if newFirstUpdate l2 = None then None else lastUpdate (queues h1 q))"
    and fc: "firstCapturedUpdate (queues h' q) = newFirstCapturedUpdate l2"
    and lc: "lastCapturedUpdate (queues h' q) =
      (if newFirstCapturedUpdate l2 = None then None else lastCapturedUpdate (queues h1 q))"
    by (simp_all add: h'_def finishProcessing_queue q3)
  have fr: "passFrame w q h1 h'"
    unfolding h'_def using f3 by (rule finishProcessing_frame)
  have "processUpdateQueue h w q0 p i r = Some h'"
    by (simp add: run h'_def)
  moreover note fr b
  moreover have "memoizedState (fibers h' w) =
      applyUpdates h1 p i (baseState (queues h1 q)) (filter (sufficient h1 r) (xs @ ys))"
    by (simp only: m rs)
  moreover have "firstUpdate (queues h' q) = List.find (\<lambda>u. \<not> sufficient h1 r u) xs"
    by (simp only: fu nfu)
  moreover have "lastUpdate (queues h' q) =
      (if list_all (sufficient h1 r) xs then None else lastUpdate (queues h1 q))"
    by (simp only: lu c1)
  moreover have "firstCapturedUpdate (queues h' q) = List.find (\<lambda>u. \<not> sufficient h1 r u) ys"
    by (simp only: fc nfc)
  moreover have "lastCapturedUpdate (queues h' q) =
      (if list_all (sufficient h1 r) ys then None else lastCapturedUpdate (queues h1 q))"
    by (simp only: lc c2)
  moreover have "fiberExpirationTime (fibers h' w) =
      fold max (map (\<lambda>u. expirationTime (updates h1 u))
                 (filter (\<lambda>u. \<not> sufficient h1 r u) (xs @ ys))) NoWork"
    by (simp only: e net)
  ultimately show ?thesis by blast
qed

subsection \<open>The rebase scenario\<close>

text \<open>
  Claim C3. Base state \<open>""\<close>; the updates A, B, C, D are enqueued with expiration times
  1, 2, 1, 2, each appending its letter. Processing at render expiration time 2 returns
  with memoized state \<open>"BD"\<close>, base state \<open>""\<close>, remaining expiration time 1 and the list
  A, B, C, D still in the queue, each record with its time and payload. Processing the
  result at render expiration time 1 returns with memoized state \<open>"ABCD"\<close>, base state
  \<open>"ABCD"\<close> and an empty list (\<open>firstUpdate\<close> and \<open>lastUpdate\<close> null).
\<close>

theorem rebase_scenario:
  "\<exists>q h1 h2.
     fiberUpdateQueue (fibers (lettersStore 1 2 1 2) 0) = Some q \<and>
     baseState (queues (lettersStore 1 2 1 2) q) = JStr '''' \<and>
     updateList (lettersStore 1 2 1 2) (firstUpdate (queues (lettersStore 1 2 1 2) q))
       [0, 1, 2, 3] \<and>
     processUpdateQueue (lettersStore 1 2 1 2) 0 q props instance 2 = Some h1 \<and>
     fiberUpdateQueue (fibers h1 0) = Some q \<and>
     memoizedState (fibers h1 0) = JStr ''BD'' \<and>
     baseState (queues h1 q) = JStr '''' \<and>
     fiberExpirationTime (fibers h1 0) = 1 \<and>
     updateList h1 (firstUpdate (queues h1 q)) [0, 1, 2, 3] \<and>
     map (\<lambda>u. expirationTime (updates h1 u)) [0, 1, 2, 3] = [1, 2, 1, 2] \<and>
     map (\<lambda>u. payload (updates h1 u)) [0, 1, 2, 3] =
       [appendLetter ''A'', appendLetter ''B'', appendLetter ''C'', appendLetter ''D''] \<and>
     processUpdateQueue h1 0 q props instance 1 = Some h2 \<and>
     fiberUpdateQueue (fibers h2 0) = Some q \<and>
     memoizedState (fibers h2 0) = JStr ''ABCD'' \<and>
     baseState (queues h2 q) = JStr ''ABCD'' \<and>
     firstUpdate (queues h2 q) = None \<and>
     lastUpdate (queues h2 q) = None"
proof -
  let ?S = "lettersStore 1 2 1 2"
  define h1 where "h1 = the (processUpdateQueue ?S 0 0 props instance 2)"
  define h2 where "h2 = the (processUpdateQueue h1 0 0 props instance 1)"
  note ev = lettersStore_def newStore_def appendLetter_def run_simps
  have a: "fiberUpdateQueue (fibers ?S 0) = Some 0 \<and> baseState (queues ?S 0) = JStr '''' \<and>
     updateList ?S (firstUpdate (queues ?S 0)) [0, 1, 2, 3]"
    by (simp add: ev)
  have b: "processUpdateQueue ?S 0 0 props instance 2 = Some h1"
    unfolding h1_def by (simp add: ev)
  have c: "fiberUpdateQueue (fibers h1 0) = Some 0 \<and>
     memoizedState (fibers h1 0) = JStr ''BD'' \<and>
     baseState (queues h1 0) = JStr '''' \<and>
     fiberExpirationTime (fibers h1 0) = 1 \<and>
     updateList h1 (firstUpdate (queues h1 0)) [0, 1, 2, 3] \<and>
     map (\<lambda>u. expirationTime (updates h1 u)) [0, 1, 2, 3] = [1, 2, 1, 2] \<and>
     map (\<lambda>u. payload (updates h1 u)) [0, 1, 2, 3] =
       [appendLetter ''A'', appendLetter ''B'', appendLetter ''C'', appendLetter ''D'']"
    unfolding h1_def by (simp add: ev)
  have d: "processUpdateQueue h1 0 0 props instance 1 = Some h2"
    unfolding h2_def h1_def by (simp add: ev)
  have e: "fiberUpdateQueue (fibers h2 0) = Some 0 \<and>
     memoizedState (fibers h2 0) = JStr ''ABCD'' \<and>
     baseState (queues h2 0) = JStr ''ABCD'' \<and>
     firstUpdate (queues h2 0) = None \<and>
     lastUpdate (queues h2 0) = None"
    unfolding h2_def h1_def by (simp add: ev)
  from a b c d e show ?thesis
    by - (rule exI [of _ 0], rule exI [of _ h1], rule exI [of _ h2], blast)
qed

subsection \<open>The base state freezes at the first skipped update\<close>

text \<open>
  Claim C5. Let \<open>q\<close> be the queue that a pass works on (the queue passed in, or its
  clone when it is the current fiber's), \<open>xs\<close> its list of updates and \<open>ys\<close> its list
  of captured updates. The pass returns; the loops visit \<open>xs\<close> and then \<open>ys\<close>. The base
  state it writes is the result state at the first skipped update of that walk: the base
  state before the pass with the updates before the first skipped one applied (all the
  updates if none is skipped). The memoized state is the final result state: the
  sufficient updates of the walk applied. If no update of either list is skipped, the base
  state is the final result state.
\<close>

theorem base_state_freeze:
  assumes "ensureWorkInProgressQueueIsAClone (h\<lparr>hasForceUpdate := False\<rparr>) w q0 = (h1, q)"
    and "updateList h1 (firstUpdate (queues h1 q)) xs"
    and "updateList h1 (firstCapturedUpdate (queues h1 q)) ys"
  shows "\<exists>h'. processUpdateQueue h w q0 p i r = Some h' \<and>
     baseState (queues h' q) =
       applyUpdates h1 p i (baseState (queues h1 q)) (takeWhile (sufficient h1 r) (xs @ ys)) \<and>
     memoizedState (fibers h' w) =
       applyUpdates h1 p i (baseState (queues h1 q)) (filter (sufficient h1 r) (xs @ ys)) \<and>
     (list_all (sufficient h1 r) (xs @ ys) \<longrightarrow>
        baseState (queues h' q) = memoizedState (fibers h' w))"
proof -
  from processUpdateQueue_lists [OF assms, of p i r] obtain h' where
    run: "processUpdateQueue h w q0 p i r = Some h'"
    and b: "baseState (queues h' q) =
       applyUpdates h1 p i (baseState (queues h1 q)) (takeWhile (sufficient h1 r) (xs @ ys))"
    and m: "memoizedState (fibers h' w) =
       applyUpdates h1 p i (baseState (queues h1 q)) (filter (sufficient h1 r) (xs @ ys))"
    by blast
  have "list_all (sufficient h1 r) (xs @ ys) \<longrightarrow>
      baseState (queues h' q) = memoizedState (fibers h' w)"
    by (simp only: b m) (simp add: takeWhile_all filter_all)
  with run b m show ?thesis by blast
qed

text \<open>
  A pass at expiration time 2 over the updates A and B (both at 2) and the captured
  updates C (at 1) and D (at 2): C is the first skipped update, so the base state is
  \<open>"AB"\<close>, and the memoized state is \<open>"ABD"\<close>.
\<close>

theorem base_state_freeze_witness:
  "\<exists>h'. processUpdateQueue (capturedLettersStore 2 2 1 2) 0 0 JNull JNull 2 = Some h' \<and>
     baseState (queues h' 0) = JStr ''AB'' \<and>
     memoizedState (fibers h' 0) = JStr ''ABD''"
proof -
  define S where "S = (capturedLettersStore 2 2 1 2)\<lparr>hasForceUpdate := False\<rparr>"
  note ev = S_def capturedLettersStore_def newStore_def appendLetter_def run_simps
  have 1: "ensureWorkInProgressQueueIsAClone
      ((capturedLettersStore 2 2 1 2)\<lparr>hasForceUpdate := False\<rparr>) 0 0 = (S, 0)"
    by (simp add: ev)
  have 2: "updateList S (firstUpdate (queues S 0)) [0, 1]"
    by (simp add: ev)
  have 3: "updateList S (firstCapturedUpdate (queues S 0)) [2, 3]"
    by (simp add: ev)
  have 4: "applyUpdates S JNull JNull (baseState (queues S 0))
      (takeWhile (sufficient S 2) ([0, 1] @ [2, 3])) = JStr ''AB''"
    by (simp add: ev applyUpdates_def sufficient_def stateFromUpdate_def)
  have 5: "applyUpdates S JNull JNull (baseState (queues S 0))
      (filter (sufficient S 2) ([0, 1] @ [2, 3])) = JStr ''ABD''"
    by (simp add: ev applyUpdates_def sufficient_def stateFromUpdate_def)
  from base_state_freeze [OF 1 2 3, of JNull JNull 2] show ?thesis
    unfolding 4 5 by blast
qed

subsection \<open>One pass, and passes to completion\<close>

lemma sameRecords_refl: "sameRecords h h"
  by (simp add: sameRecords_def)

lemma sameRecords_trans: "sameRecords h1 h2 \<Longrightarrow> sameRecords h2 h3 \<Longrightarrow> sameRecords h1 h3"
  by (simp add: sameRecords_def)

lemma passFrame_sameRecords: "passFrame w q h h' \<Longrightarrow> sameRecords h h'"
  by (simp add: passFrame_def sameRecords_def)

lemma sameRecords_updateList: "sameRecords h h' \<Longrightarrow> updateList h' p xs = updateList h p xs"
  unfolding updateList_def by (rule linked_cong) (simp add: sameRecords_def)

lemma sameRecords_sufficient: "sameRecords h h' \<Longrightarrow> sufficient h' r = sufficient h r"
  by (simp add: sufficient_def sameRecords_def fun_eq_iff)

lemma sameRecords_applyUpdates:
  "sameRecords h h' \<Longrightarrow> applyUpdates h' p i s us = applyUpdates h p i s us"
proof (induction us arbitrary: s)
  case Nil
  show ?case by (simp add: applyUpdates_Nil)
next
  case (Cons u us)
  have "stateFromUpdate (updates h' u) = stateFromUpdate (updates h u)"
    using Cons.prems by (intro stateFromUpdate_fields) (simp_all add: sameRecords_def)
  with Cons show ?case by (simp add: applyUpdates_Cons)
qed

lemma linked_dropWhile:
  "linked nxt p xs \<Longrightarrow> linked nxt (List.find (\<lambda>u. \<not> P u) xs) (dropWhile P xs)"
  by (induction xs arbitrary: p) auto

lemma ensureWorkInProgressQueueIsAClone_cases:
  assumes "ensureWorkInProgressQueueIsAClone h w q0 = (h1, q)"
  shows "(h1 = h \<and> q = q0) \<or>
         (q = newQueue h \<and>
          h1 = writeFiber (fst (cloneUpdateQueue h q0)) w (\<lambda>f. f\<lparr>fiberUpdateQueue := Some q\<rparr>))"
  using assms
  by (auto simp: ensureWorkInProgressQueueIsAClone_def cloneUpdateQueue_def Let_def
      split: option.splits if_splits)

lemma ensureWorkInProgressQueueIsAClone_queue:
  assumes "ensureWorkInProgressQueueIsAClone h w q0 = (h1, q)"
  shows "updates h1 = updates h"
    and "baseState (queues h1 q) = baseState (queues h q0)"
    and "firstUpdate (queues h1 q) = firstUpdate (queues h q0)"
    and "lastUpdate (queues h1 q) = lastUpdate (queues h q0)"
    and "firstCapturedUpdate (queues h q0) = None \<Longrightarrow> firstCapturedUpdate (queues h1 q) = None"
    and "fiberUpdateQueue (fibers h w) = Some q0 \<Longrightarrow> fiberUpdateQueue (fibers h1 w) = Some q"
  using ensureWorkInProgressQueueIsAClone_cases [OF assms]
  by (auto simp: cloneUpdateQueue_def writeFiber_def Let_def)

lemma processUpdateQueue_pass:
  assumes fq: "fiberUpdateQueue (fibers h w) = Some q0"
    and xs: "updateList h (firstUpdate (queues h q0)) xs"
    and nocap: "firstCapturedUpdate (queues h q0) = None"
  shows "\<exists>h' q. processUpdateQueue h w q0 p i r = Some h' \<and>
     sameRecords h h' \<and>
     fiberUpdateQueue (fibers h' w) = Some q \<and>
     firstCapturedUpdate (queues h' q) = None \<and>
     updateList h' (firstUpdate (queues h' q)) (dropWhile (sufficient h r) xs) \<and>
     lastUpdate (queues h' q) =
       (if list_all (sufficient h r) xs then None else lastUpdate (queues h q0)) \<and>
     baseState (queues h' q) =
       applyUpdates h p i (baseState (queues h q0)) (takeWhile (sufficient h r) xs) \<and>
     memoizedState (fibers h' w) =
       applyUpdates h p i (baseState (queues h q0)) (filter (sufficient h r) xs)"
proof -
  obtain h1 q where ens:
    "ensureWorkInProgressQueueIsAClone (h\<lparr>hasForceUpdate := False\<rparr>) w q0 = (h1, q)"
    by (cases "ensureWorkInProgressQueueIsAClone (h\<lparr>hasForceUpdate := False\<rparr>) w q0")
  note e = ensureWorkInProgressQueueIsAClone_queue [OF ens]
  have u1: "updates h1 = updates h" using e(1) by simp
  then have s1: "sameRecords h h1" by (simp add: sameRecords_def)
  have xs1: "updateList h1 (firstUpdate (queues h1 q)) xs"
    using xs by (simp add: e(3) updateList_def u1)
  have ys1: "updateList h1 (firstCapturedUpdate (queues h1 q)) []"
    using e(5) nocap by (simp add: updateList_def)
  from processUpdateQueue_lists [OF ens xs1 ys1, of p i r] obtain h' where
    run: "processUpdateQueue h w q0 p i r = Some h'"
    and fr: "passFrame w q h1 h'"
    and b: "baseState (queues h' q) =
       applyUpdates h1 p i (baseState (queues h1 q)) (takeWhile (sufficient h1 r) (xs @ []))"
    and m: "memoizedState (fibers h' w) =
       applyUpdates h1 p i (baseState (queues h1 q)) (filter (sufficient h1 r) (xs @ []))"
    and fu: "firstUpdate (queues h' q) = List.find (\<lambda>u. \<not> sufficient h1 r u) xs"
    and lu: "lastUpdate (queues h' q) =
       (if list_all (sufficient h1 r) xs then None else lastUpdate (queues h1 q))"
    and fc: "firstCapturedUpdate (queues h' q) = List.find (\<lambda>u. \<not> sufficient h1 r u) []"
    by blast
  have s': "sameRecords h h'"
    using s1 passFrame_sameRecords [OF fr] by (rule sameRecords_trans)
  have suf: "sufficient h1 r = sufficient h r" using s1 by (rule sameRecords_sufficient)
  have "updateList h1 (List.find (\<lambda>u. \<not> sufficient h r u) xs) (dropWhile (sufficient h r) xs)"
    using xs1 unfolding updateList_def by (rule linked_dropWhile)
  then have l': "updateList h' (firstUpdate (queues h' q)) (dropWhile (sufficient h r) xs)"
    by (simp add: fu suf sameRecords_updateList [OF passFrame_sameRecords [OF fr]])
  have fq': "fiberUpdateQueue (fibers h' w) = Some q"
    using fr e(6) fq by (simp add: passFrame_def)
  show ?thesis
    using run s' fq' l' fc
    by (simp add: b m lu suf e(2) e(4) sameRecords_applyUpdates [OF s1])
qed

lemma processAtEach_drained:
  assumes "fiberUpdateQueue (fibers h w) = Some q0"
    and "firstUpdate (queues h q0) = None"
    and "firstCapturedUpdate (queues h q0) = None"
    and "memoizedState (fibers h w) = baseState (queues h q0)"
  shows "\<exists>h'. processAtEach h w p i rs = Some h' \<and>
     memoizedState (fibers h' w) = baseState (queues h q0)"
  using assms
proof (induction rs arbitrary: h q0)
  case Nil
  then show ?case by simp
next
  case (Cons r rs)
  have xs: "updateList h (firstUpdate (queues h q0)) []"
    using Cons.prems(2) by (simp add: updateList_def)
  from processUpdateQueue_pass [OF Cons.prems(1) xs Cons.prems(3), of p i r]
  obtain h' q where run: "processUpdateQueue h w q0 p i r = Some h'"
    and fq: "fiberUpdateQueue (fibers h' w) = Some q"
    and fc: "firstCapturedUpdate (queues h' q) = None"
    and l: "updateList h' (firstUpdate (queues h' q)) []"
    and b: "baseState (queues h' q) = baseState (queues h q0)"
    and m: "memoizedState (fibers h' w) = baseState (queues h q0)"
    by (auto simp: applyUpdates_Nil)
  from l have fu: "firstUpdate (queues h' q) = None" by (simp add: updateList_def)
  from Cons.IH [OF fq fu fc] m b show ?case
    by (simp add: Cons.prems(1) run)
qed

lemma applyUpdates_takeWhile_dropWhile:
  "applyUpdates h p i (applyUpdates h p i s (takeWhile P xs)) (dropWhile P xs) =
     applyUpdates h p i s xs"
  by (simp add: applyUpdates_append [symmetric])

lemma dropWhile_all: "list_all P xs \<Longrightarrow> dropWhile P xs = []"
  by (induction xs) auto

lemma processAtEach_complete:
  assumes "fiberUpdateQueue (fibers h w) = Some q0"
    and "updateList h (firstUpdate (queues h q0)) xs"
    and "firstCapturedUpdate (queues h q0) = None"
    and "\<exists>r \<in> set rs. list_all (sufficient h r) xs"
  shows "\<exists>h'. processAtEach h w p i rs = Some h' \<and>
     memoizedState (fibers h' w) = applyUpdates h p i (baseState (queues h q0)) xs"
  using assms
proof (induction rs arbitrary: h q0 xs)
  case Nil
  then show ?case by simp
next
  case (Cons r rs)
  from processUpdateQueue_pass [OF Cons.prems(1-3), of p i r]
  obtain h' q where run: "processUpdateQueue h w q0 p i r = Some h'"
    and s: "sameRecords h h'"
    and fq: "fiberUpdateQueue (fibers h' w) = Some q"
    and fc: "firstCapturedUpdate (queues h' q) = None"
    and l: "updateList h' (firstUpdate (queues h' q)) (dropWhile (sufficient h r) xs)"
    and b: "baseState (queues h' q) =
       applyUpdates h p i (baseState (queues h q0)) (takeWhile (sufficient h r) xs)"
    and m: "memoizedState (fibers h' w) =
       applyUpdates h p i (baseState (queues h q0)) (filter (sufficient h r) xs)"
    by blast
  show ?case
  proof (cases "list_all (sufficient h r) xs")
    case True
    then have fu: "firstUpdate (queues h' q) = None"
      using l by (simp add: dropWhile_all updateList_def)
    have b': "baseState (queues h' q) = applyUpdates h p i (baseState (queues h q0)) xs"
      using True by (simp add: b takeWhile_all)
    have m': "memoizedState (fibers h' w) = baseState (queues h' q)"
      using True by (simp add: b' m filter_all)
    from processAtEach_drained [OF fq fu fc m', of p i rs] show ?thesis
      by (simp add: Cons.prems(1) run b')
  next
    case False
    with Cons.prems(4) obtain r' where r': "r' \<in> set rs" "list_all (sufficient h r') xs"
      by auto
    have "list_all (sufficient h r') (dropWhile (sufficient h r) xs)"
      using r'(2) set_dropWhileD [of _ "sufficient h r" xs] by (auto simp: list_all_iff)
    then have "list_all (sufficient h' r') (dropWhile (sufficient h r) xs)"
      by (simp add: sameRecords_sufficient [OF s])
    with r'(1) have ex:
      "\<exists>t \<in> set rs. list_all (sufficient h' t) (dropWhile (sufficient h r) xs)"
      by blast
    from Cons.IH [OF fq l fc ex] show ?thesis
      by (simp add: Cons.prems(1) run b sameRecords_applyUpdates [OF s]
          applyUpdates_takeWhile_dropWhile)
  qed
qed

lemma each_level_runs:
  assumes "rs \<noteq> []" and "\<forall>u \<in> set xs. expirationTime (updates h u) \<in> set rs"
  shows "\<exists>r \<in> set rs. list_all (sufficient h r) xs"
proof (cases "xs = []")
  case True
  with assms(1) show ?thesis by (cases rs) auto
next
  case False
  define m where "m = Min ((\<lambda>u. expirationTime (updates h u)) ` set xs)"
  have "m \<in> (\<lambda>u. expirationTime (updates h u)) ` set xs"
    unfolding m_def using False by (intro Min_in) auto
  with assms(2) have "m \<in> set rs" by auto
  moreover have "list_all (sufficient h m) xs"
    unfolding m_def by (auto simp: list_all_iff sufficient_def not_less)
  ultimately show ?thesis by blast
qed

lemmas store_simps = lettersStore_def capturedLettersStore_def newStore_def appendLetter_def

subsection \<open>Determinism\<close>

text \<open>
  Claim C2, as amended. Take a fiber whose queue has the list of updates \<open>xs\<close> and no
  captured update. Process it once per render expiration time of a list \<open>rs\<close>, and
  once per render expiration time of a list \<open>rs'\<close>, where both lists are not empty and
  contain the expiration time of every update of \<open>xs\<close> (each pending level runs), in any
  order and with any other levels in between. Both runs return, with the same memoized
  state: every update of \<open>xs\<close>, in insertion order, applied to the base state.
\<close>

theorem determinism:
  assumes "fiberUpdateQueue (fibers h w) = Some q"
    and "updateList h (firstUpdate (queues h q)) xs"
    and "firstCapturedUpdate (queues h q) = None"
    and "rs \<noteq> []" and "\<forall>u \<in> set xs. expirationTime (updates h u) \<in> set rs"
    and "rs' \<noteq> []" and "\<forall>u \<in> set xs. expirationTime (updates h u) \<in> set rs'"
  shows "\<exists>h1 h2. processAtEach h w p i rs = Some h1 \<and> processAtEach h w p i rs' = Some h2 \<and>
     memoizedState (fibers h1 w) = memoizedState (fibers h2 w) \<and>
     memoizedState (fibers h1 w) = applyUpdates h p i (baseState (queues h q)) xs"
proof -
  from processAtEach_complete [OF assms(1-3) each_level_runs [OF assms(4,5)], of p i]
  obtain h1 where 1: "processAtEach h w p i rs = Some h1"
    "memoizedState (fibers h1 w) = applyUpdates h p i (baseState (queues h q)) xs"
    by blast
  from processAtEach_complete [OF assms(1-3) each_level_runs [OF assms(6,7)], of p i]
  obtain h2 where 2: "processAtEach h w p i rs' = Some h2"
    "memoizedState (fibers h2 w) = applyUpdates h p i (baseState (queues h q)) xs"
    by blast
  from 1 2 show ?thesis by simp
qed

text \<open>The updates A, B, C, D at 1, 2, 1, 2: the orders 2, 1 and 1, 2 both end in \<open>"ABCD"\<close>.\<close>

theorem determinism_witness:
  "\<exists>h1 h2. processAtEach (lettersStore 1 2 1 2) 0 JNull JNull [2, 1] = Some h1 \<and>
     processAtEach (lettersStore 1 2 1 2) 0 JNull JNull [1, 2] = Some h2 \<and>
     memoizedState (fibers h1 0) = memoizedState (fibers h2 0) \<and>
     memoizedState (fibers h1 0) = JStr ''ABCD''"
proof -
  let ?S = "lettersStore 1 2 1 2"
  note ev = store_simps run_simps
  have 1: "fiberUpdateQueue (fibers ?S 0) = Some 0" by (simp add: ev)
  have 2: "updateList ?S (firstUpdate (queues ?S 0)) [0, 1, 2, 3]" by (simp add: ev)
  have 3: "firstCapturedUpdate (queues ?S 0) = None" by (simp add: ev)
  have 4: "\<forall>u \<in> set [0, 1, 2, 3]. expirationTime (updates ?S u) \<in> set [2, 1]"
    by (simp add: ev)
  have 5: "\<forall>u \<in> set [0, 1, 2, 3]. expirationTime (updates ?S u) \<in> set [1, 2]"
    by (simp add: ev)
  have 6: "applyUpdates ?S JNull JNull (baseState (queues ?S 0)) [0, 1, 2, 3] = JStr ''ABCD''"
    by (simp add: ev applyUpdates_def stateFromUpdate_def)
  have 7: "[2, 1::nat] \<noteq> []" "[1, 2::nat] \<noteq> []" by simp_all
  from determinism [OF 1 2 3 7(1) 4 7(2) 5, of JNull JNull] show ?thesis
    unfolding 6 .
qed

text \<open>
  The claim as stated, for every queue, fails on a queue that holds captured updates: a
  captured update that a pass processes leaves the captured list, also when the pass
  skipped an update of the normal list, and no later pass applies it again. With A and B
  scheduled at 1 and C and D captured at 2, the passes at 2 and then 1 end in \<open>"AB"\<close>,
  the passes at 1 and then 2 in \<open>"ABCD"\<close>.
\<close>

theorem determinism_counterexample:
  "processAtEach (capturedLettersStore 1 1 2 2) 0 JNull JNull [2, 1] \<noteq> None \<and>
   processAtEach (capturedLettersStore 1 1 2 2) 0 JNull JNull [1, 2] \<noteq> None \<and>
   memoizedState (fibers (the (processAtEach (capturedLettersStore 1 1 2 2) 0 JNull JNull [2, 1])) 0)
     = JStr ''AB'' \<and>
   memoizedState (fibers (the (processAtEach (capturedLettersStore 1 1 2 2) 0 JNull JNull [1, 2])) 0)
     = JStr ''ABCD''"
  by (simp add: store_simps run_simps)

subsection \<open>Priority rebase\<close>

lemma processAtEach_single:
  assumes "fiberUpdateQueue (fibers h w) = Some q"
    and "updateList h (firstUpdate (queues h q)) xs"
    and "firstCapturedUpdate (queues h q) = None"
  shows "\<exists>h'. processAtEach h w p i [r] = Some h' \<and>
     memoizedState (fibers h' w) =
       applyUpdates h p i (baseState (queues h q)) (filter (sufficient h r) xs)"
  using processUpdateQueue_pass [OF assms, of p i r] by (auto simp: assms(1))

text \<open>
  Claim C4, as amended. The updates U1, U2, U3, U4 are in the queue with expiration times
  1, 2, 1, 2. An update is skipped when its expiration time is below the render
  expiration time, so a pass at 1 skips nothing: after the pass at 1 the memoized state is
  \<open>apply(apply(apply(apply(baseState, U1), U2), U3), U4)\<close>, and after a following pass
  at 2 it is the same. The state that leaves the updates of the other level out is that of
  a first pass at 2, \<open>apply(apply(baseState, U2), U4)\<close>; a following pass at 1 then
  gives all four again, in insertion order.
\<close>

theorem priority_rebase:
  assumes "fiberUpdateQueue (fibers h w) = Some q"
    and "updateList h (firstUpdate (queues h q)) [u1, u2, u3, u4]"
    and "firstCapturedUpdate (queues h q) = None"
    and "expirationTime (updates h u1) = 1" and "expirationTime (updates h u2) = 2"
    and "expirationTime (updates h u3) = 1" and "expirationTime (updates h u4) = 2"
  shows "\<exists>h1 h2 h3 h4.
     processAtEach h w p i [1] = Some h1 \<and>
     memoizedState (fibers h1 w) =
       applyUpdates h p i (baseState (queues h q)) [u1, u2, u3, u4] \<and>
     processAtEach h w p i [1, 2] = Some h2 \<and>
     memoizedState (fibers h2 w) =
       applyUpdates h p i (baseState (queues h q)) [u1, u2, u3, u4] \<and>
     processAtEach h w p i [2] = Some h3 \<and>
     memoizedState (fibers h3 w) = applyUpdates h p i (baseState (queues h q)) [u2, u4] \<and>
     processAtEach h w p i [2, 1] = Some h4 \<and>
     memoizedState (fibers h4 w) =
       applyUpdates h p i (baseState (queues h q)) [u1, u2, u3, u4]"
proof -
  let ?xs = "[u1, u2, u3, u4]"
  have f1: "filter (sufficient h 1) ?xs = ?xs"
    by (simp add: sufficient_def assms(4-7))
  have f2: "filter (sufficient h 2) ?xs = [u2, u4]"
    by (simp add: sufficient_def assms(4-7))
  have all1: "list_all (sufficient h 1) ?xs"
    by (simp add: sufficient_def assms(4-7))
  from processAtEach_single [OF assms(1-3), of p i 1] obtain h1 where
    1: "processAtEach h w p i [1] = Some h1"
       "memoizedState (fibers h1 w) = applyUpdates h p i (baseState (queues h q)) ?xs"
    unfolding f1 by blast
  from processAtEach_single [OF assms(1-3), of p i 2] obtain h3 where
    3: "processAtEach h w p i [2] = Some h3"
       "memoizedState (fibers h3 w) = applyUpdates h p i (baseState (queues h q)) [u2, u4]"
    unfolding f2 by blast
  have "\<exists>r \<in> set [1, 2]. list_all (sufficient h r) ?xs"
    using all1 by simp
  from processAtEach_complete [OF assms(1-3) this, of p i] obtain h2 where
    2: "processAtEach h w p i [1, 2] = Some h2"
       "memoizedState (fibers h2 w) = applyUpdates h p i (baseState (queues h q)) ?xs"
    by blast
  have "\<exists>r \<in> set [2, 1]. list_all (sufficient h r) ?xs"
    using all1 by simp
  from processAtEach_complete [OF assms(1-3) this, of p i] obtain h4 where
    4: "processAtEach h w p i [2, 1] = Some h4"
       "memoizedState (fibers h4 w) = applyUpdates h p i (baseState (queues h q)) ?xs"
    by blast
  from 1 2 3 4 show ?thesis by blast
qed

text \<open>The updates A, B, C, D at 1, 2, 1, 2.\<close>

theorem priority_rebase_witness:
  "\<exists>h1 h2 h3 h4.
     processAtEach (lettersStore 1 2 1 2) 0 JNull JNull [1] = Some h1 \<and>
     memoizedState (fibers h1 0) = JStr ''ABCD'' \<and>
     processAtEach (lettersStore 1 2 1 2) 0 JNull JNull [1, 2] = Some h2 \<and>
     memoizedState (fibers h2 0) = JStr ''ABCD'' \<and>
     processAtEach (lettersStore 1 2 1 2) 0 JNull JNull [2] = Some h3 \<and>
     memoizedState (fibers h3 0) = JStr ''BD'' \<and>
     processAtEach (lettersStore 1 2 1 2) 0 JNull JNull [2, 1] = Some h4 \<and>
     memoizedState (fibers h4 0) = JStr ''ABCD''"
proof -
  let ?S = "lettersStore 1 2 1 2"
  note ev = store_simps run_simps
  have 1: "fiberUpdateQueue (fibers ?S 0) = Some 0" by (simp add: ev)
  have 2: "updateList ?S (firstUpdate (queues ?S 0)) [0, 1, 2, 3]" by (simp add: ev)
  have 3: "firstCapturedUpdate (queues ?S 0) = None" by (simp add: ev)
  have 4: "expirationTime (updates ?S 0) = 1" "expirationTime (updates ?S 1) = 2"
    "expirationTime (updates ?S 2) = 1" "expirationTime (updates ?S 3) = 2"
    by (simp_all add: ev)
  have 5: "applyUpdates ?S JNull JNull (baseState (queues ?S 0)) [0, 1, 2, 3] = JStr ''ABCD''"
    by (simp add: ev applyUpdates_def stateFromUpdate_def)
  have 6: "applyUpdates ?S JNull JNull (baseState (queues ?S 0)) [1, 3] = JStr ''BD''"
    by (simp add: ev applyUpdates_def stateFromUpdate_def)
  from priority_rebase [OF 1 2 3 4, of JNull JNull] show ?thesis
    unfolding 5 6 .
qed

text \<open>
  The claim as stated has \<open>apply(apply(baseState, U1), U3)\<close> after the pass at 1. With
  A, B, C, D at 1, 2, 1, 2 that would be \<open>"AC"\<close>; the pass at 1 gives \<open>"ABCD"\<close>.
\<close>

theorem priority_rebase_counterexample:
  "processUpdateQueue (lettersStore 1 2 1 2) 0 0 JNull JNull 1 \<noteq> None \<and>
   memoizedState (fibers (the (processUpdateQueue (lettersStore 1 2 1 2) 0 0 JNull JNull 1)) 0)
     = JStr ''ABCD'' \<and>
   applyUpdates (lettersStore 1 2 1 2) JNull JNull
     (baseState (queues (lettersStore 1 2 1 2) 0)) [0, 2] = JStr ''AC''"
  by (simp add: store_simps run_simps applyUpdates_def stateFromUpdate_def)

subsection \<open>Committing: the effect lists\<close>

lemma commitFrame_refl: "commitFrame h h"
  by (simp add: commitFrame_def)

lemma commitFrame_trans: "commitFrame h1 h2 \<Longrightarrow> commitFrame h2 h3 \<Longrightarrow> commitFrame h1 h3"
  unfolding commitFrame_def by (intro conjI allI) (simp_all, metis)

lemma commitFrame_effectList: "commitFrame h h' \<Longrightarrow> effectList h' p es = effectList h p es"
  unfolding effectList_def by (rule linked_cong) (simp add: commitFrame_def)

lemma commitFrame_cleared:
  "commitFrame h h' \<Longrightarrow> callback (updates h a) = None \<Longrightarrow> callback (updates h' a) = None"
  unfolding commitFrame_def by metis

lemma commitFrame_callback:
  "commitFrame h h' \<Longrightarrow> callback (updates h' a) \<noteq> None \<Longrightarrow>
   callback (updates h' a) = callback (updates h a)"
  unfolding commitFrame_def by metis

lemma commitUpdateEffects_list:
  "effectList h p es \<Longrightarrow>
   \<exists>out rs. commitUpdateEffects h p i = Some out \<and> commitFrame h (storeOf out) \<and>
     set rs \<subseteq> set es \<and> calledOnce h i rs (storeOf out) \<and>
     (\<forall>h'. out = Inr h' \<longrightarrow>
        set rs = {e \<in> set es. callback (updates h e) \<noteq> None} \<and>
        (\<forall>a. a \<notin> set rs \<longrightarrow> callback (updates h' a) = callback (updates h a))) \<and>
     (allReturn h es \<longrightarrow> (\<exists>h'. out = Inr h'))"
proof (induction es arbitrary: h p)
  case Nil
  then have "p = None" by (simp add: effectList_def)
  then show ?case
    by (intro exI [of _ "Inr h"] exI [of _ "[]"])
       (simp add: commitUpdateEffects_None storeOf_def commitFrame_refl calledOnce_def)
next
  case (Cons e es)
  from Cons.prems have p: "p = Some e" and tl: "effectList h (nextEffect (updates h e)) es"
    by (simp_all add: effectList_def)
  show ?case
  proof (cases "callback (updates h e)")
    case None
    from Cons.IH [OF tl] obtain out rs where
      run: "commitUpdateEffects h (nextEffect (updates h e)) i = Some out"
      and fr: "commitFrame h (storeOf out)" and sub: "set rs \<subseteq> set es"
      and once: "calledOnce h i rs (storeOf out)"
      and ret: "\<forall>h'. out = Inr h' \<longrightarrow>
        set rs = {e \<in> set es. callback (updates h e) \<noteq> None} \<and>
        (\<forall>a. a \<notin> set rs \<longrightarrow> callback (updates h' a) = callback (updates h a))"
      and good: "allReturn h es \<longrightarrow> (\<exists>h'. out = Inr h')"
      by blast
    have good': "allReturn h (e # es) \<longrightarrow> (\<exists>h'. out = Inr h')"
      using good by (simp add: allReturn_def)
    have ret': "\<forall>h'. out = Inr h' \<longrightarrow>
        set rs = {a \<in> set (e # es). callback (updates h a) \<noteq> None} \<and>
        (\<forall>a. a \<notin> set rs \<longrightarrow> callback (updates h' a) = callback (updates h a))"
      using ret None by auto
    have exec: "commitUpdateEffects h p i = Some out"
      by (simp add: p commitUpdateEffects_Some None run)
    have sub': "set rs \<subseteq> set (e # es)" using sub by auto
    from exec fr sub' once ret' good' show ?thesis by blast
  next
    case (Some cb)
    define h1 where "h1 = writeUpdate h e (\<lambda>r. r\<lparr>callback := None\<rparr>)"
    have f1: "commitFrame h h1"
      by (simp add: h1_def commitFrame_def writeUpdate_def)
    have c1: "callback (updates h1 e) = None" "called h1 = called h"
      by (simp_all add: h1_def writeUpdate_def)
    show ?thesis
    proof (cases cb)
      case (CallbackOther v)
      then have "commitUpdateEffects h p i = Some (Inl (InvariantViolation cb, h1))"
        by (simp add: p commitUpdateEffects_Some Some callCallback_def h1_def)
      moreover have "\<not> allReturn h (e # es)"
        using Some CallbackOther by (auto simp: allReturn_def returns_def)
      ultimately show ?thesis
        using f1 c1
        by (intro exI [of _ "Inl (InvariantViolation cb, h1)"] exI [of _ "[]"])
           (simp add: storeOf_def calledOnce_def)
    next
      case (CallbackFunction n throws)
      define h2 where "h2 = h1\<lparr>called := called h1 @ [(cb, i)]\<rparr>"
      have f2: "commitFrame h h2"
        using f1 by (simp add: h2_def commitFrame_def)
      have c2: "callback (updates h2 e) = None" "called h2 = called h @ [(cb, i)]"
        using c1 by (simp_all add: h2_def)
      show ?thesis
      proof (cases throws)
        case True
        then have "commitUpdateEffects h p i = Some (Inl (CallbackThrew cb, h2))"
          by (simp add: p commitUpdateEffects_Some Some callCallback_def h1_def h2_def
              CallbackFunction Let_def)
        moreover have "\<not> allReturn h (e # es)"
          using Some CallbackFunction True by (auto simp: allReturn_def returns_def)
        ultimately show ?thesis
          using f2 c2 Some
          by (intro exI [of _ "Inl (CallbackThrew cb, h2)"] exI [of _ "[e]"])
             (simp add: storeOf_def calledOnce_def)
      next
        case False
        have tl2: "effectList h2 (nextEffect (updates h2 e)) es"
          using tl f2 by (simp add: commitFrame_effectList [OF f2]) (simp add: commitFrame_def)
        from Cons.IH [OF tl2] obtain out rs where
          run: "commitUpdateEffects h2 (nextEffect (updates h2 e)) i = Some out"
          and fr: "commitFrame h2 (storeOf out)" and sub: "set rs \<subseteq> set es"
          and once: "calledOnce h2 i rs (storeOf out)"
          and ret: "\<forall>h'. out = Inr h' \<longrightarrow>
            set rs = {a \<in> set es. callback (updates h2 a) \<noteq> None} \<and>
            (\<forall>a. a \<notin> set rs \<longrightarrow> callback (updates h' a) = callback (updates h2 a))"
          and good: "allReturn h2 es \<longrightarrow> (\<exists>h'. out = Inr h')"
          by blast
        have "allReturn h (e # es) \<longrightarrow> allReturn h2 es"
          using commitFrame_callback [OF f2] unfolding allReturn_def
          by (metis list.set_intros(2) option.distinct(1))
        with good have good': "allReturn h (e # es) \<longrightarrow> (\<exists>h'. out = Inr h')"
          by blast
        have run': "commitUpdateEffects h p i = Some out"
          using False run
          by (simp add: p commitUpdateEffects_Some Some callCallback_def h1_def h2_def
              CallbackFunction Let_def)
        have fr': "commitFrame h (storeOf out)"
          using f2 fr by (rule commitFrame_trans)
        have notin: "e \<notin> set rs"
          using once c2(1) by (auto simp: calledOnce_def)
        have same: "\<forall>a \<in> set rs. callback (updates h2 a) = callback (updates h a)"
          using once commitFrame_callback [OF f2] by (auto simp: calledOnce_def)
        have e': "callback (updates (storeOf out) e) = None"
          using fr c2(1) by (rule commitFrame_cleared)
        have once': "calledOnce h i (e # rs) (storeOf out)"
          using once notin same e' Some c2(2)
          by (auto simp: calledOnce_def)
        have other: "\<forall>a. a \<noteq> e \<longrightarrow> callback (updates h2 a) = callback (updates h a)"
          by (simp add: h2_def h1_def writeUpdate_def)
        have ret': "\<forall>h'. out = Inr h' \<longrightarrow>
            set (e # rs) = {a \<in> set (e # es). callback (updates h a) \<noteq> None} \<and>
            (\<forall>a. a \<notin> set (e # rs) \<longrightarrow> callback (updates h' a) = callback (updates h a))"
        proof (intro allI impI)
          fix h' assume out: "out = Inr h'"
          with ret have r1: "set rs = {a \<in> set es. callback (updates h2 a) \<noteq> None}"
            and r2: "\<forall>a. a \<notin> set rs \<longrightarrow> callback (updates h' a) = callback (updates h2 a)"
            by auto
          have "set (e # rs) = {a \<in> set (e # es). callback (updates h a) \<noteq> None}"
            using r1 other c2(1) Some by auto
          moreover have "\<forall>a. a \<notin> set (e # rs) \<longrightarrow>
              callback (updates h' a) = callback (updates h a)"
            using r2 other by auto
          ultimately show "set (e # rs) = {a \<in> set (e # es). callback (updates h a) \<noteq> None} \<and>
            (\<forall>a. a \<notin> set (e # rs) \<longrightarrow> callback (updates h' a) = callback (updates h a))"
            by simp
        qed
        have sub': "set (e # rs) \<subseteq> set (e # es)" using sub by auto
        from run' fr' sub' once' ret' good' show ?thesis by blast
      qed
    qed
  qed
qed

lemma commitFrame_called: "commitFrame h h' \<Longrightarrow> commitFrame h (h'\<lparr>called := c\<rparr>)"
  by (simp add: commitFrame_def)

lemma commitUpdateEffects_frame:
  assumes "commitUpdateEffects h0 p0 i0 = Some out0"
  shows "commitFrame h0 (storeOf out0)"
proof (rule commitUpdateEffects.raw_induct
    [where P = "\<lambda>h p i out. commitFrame h (storeOf out)", OF _ assms], goal_cases)
  case (1 step h p i out)
  show ?case
  proof (cases p)
    case None
    with 1(2) have "out = Inr h" by auto
    then show ?thesis by (simp add: storeOf_def commitFrame_refl)
  next
    case (Some e)
    note p = this
    show ?thesis
    proof (cases "callback (updates h e)")
      case None
      with 1(2) p have "step h (nextEffect (updates h e)) i = Some out" by simp
      then show ?thesis by (rule 1(1))
    next
      case (Some cb)
      define h1 where "h1 = writeUpdate h e (\<lambda>r. r\<lparr>callback := None\<rparr>)"
      have f1: "commitFrame h h1"
        by (simp add: h1_def commitFrame_def writeUpdate_def)
      show ?thesis
      proof (cases "callCallback h1 cb i")
        case (Inl err)
        then have "storeOf (Inl err) = h1 \<or> storeOf (Inl err) = h1\<lparr>called := called h1 @ [(cb, i)]\<rparr>"
          by (auto simp: callCallback_def storeOf_def Let_def split: callback.splits if_splits)
        moreover have "out = Inl err"
          using 1(2) p Some Inl by (simp add: h1_def)
        ultimately show ?thesis
          using f1 commitFrame_called [OF f1] by auto
      next
        case (Inr h2)
        then have "h2 = h1\<lparr>called := called h1 @ [(cb, i)]\<rparr>"
          by (auto simp: callCallback_def Let_def split: callback.splits if_splits)
        with f1 have f2: "commitFrame h h2" by (simp add: commitFrame_called)
        have "step h2 (nextEffect (updates h2 e)) i = Some out"
          using 1(2) p Some Inr by (simp add: h1_def)
        then have "commitFrame h2 (storeOf out)" by (rule 1(1))
        with f2 show ?thesis by (rule commitFrame_trans)
      qed
    qed
  qed
qed

lemma commitQueueFrame_trans:
  "commitQueueFrame q h1 h2 \<Longrightarrow> commitQueueFrame q h2 h3 \<Longrightarrow> commitQueueFrame q h1 h3"
  by (simp add: commitQueueFrame_def)

lemma commitFrame_commitQueueFrame: "commitFrame h h' \<Longrightarrow> commitQueueFrame q h h'"
  by (simp add: commitFrame_def commitQueueFrame_def)

lemma commitQueueFrame_clearEffects:
  "commitQueueFrame q h (writeQueue h q (\<lambda>r. r\<lparr>firstEffect := None, lastEffect := None\<rparr>))"
  "commitQueueFrame q h
     (writeQueue h q (\<lambda>r. r\<lparr>firstCapturedEffect := None, lastCapturedEffect := None\<rparr>))"
  by (simp_all add: commitQueueFrame_def writeQueue_def)

lemma storeOf_simps [simp]: "storeOf (Inl (err, h)) = h" "storeOf (Inr h) = h"
  by (simp_all add: storeOf_def)

lemma commitUpdateQueue_frame:
  assumes "commitUpdateQueue h fw q i r = Some out"
  shows "commitQueueFrame q (joinCapturedUpdates h q) (storeOf out)"
proof -
  define h1 where "h1 = joinCapturedUpdates h q"
  show ?thesis
  proof (cases "commitUpdateEffects h1 (firstEffect (queues h1 q)) i")
    case None
    with assms show ?thesis by (simp add: commitUpdateQueue_def h1_def [symmetric])
  next
    case (Some out1)
    note f1 = commitFrame_commitQueueFrame [OF commitUpdateEffects_frame [OF Some], of q]
    show ?thesis
    proof (cases out1)
      case (Inl err)
      with assms Some have "out = out1"
        by (simp add: commitUpdateQueue_def h1_def [symmetric])
      with f1 show ?thesis by (simp add: h1_def)
    next
      case (Inr h2)
      define h3 where "h3 = writeQueue h2 q (\<lambda>r. r\<lparr>firstEffect := None, lastEffect := None\<rparr>)"
      have f3: "commitQueueFrame q h1 h3"
        using f1 commitQueueFrame_clearEffects(1) [of q h2]
        unfolding Inr h3_def storeOf_simps by (rule commitQueueFrame_trans)
      show ?thesis
      proof (cases "commitUpdateEffects h3 (firstCapturedEffect (queues h3 q)) i")
        case None
        with assms Some Inr show ?thesis
          by (simp add: commitUpdateQueue_def h1_def [symmetric] h3_def [symmetric])
      next
        case (Some out2)
        note f4 = commitFrame_commitQueueFrame [OF commitUpdateEffects_frame [OF Some], of q]
        show ?thesis
        proof (cases out2)
          case (Inl err)
          with assms \<open>commitUpdateEffects h1 (firstEffect (queues h1 q)) i = Some out1\<close> Inr Some
          have "out = out2"
            by (simp add: commitUpdateQueue_def h1_def [symmetric] h3_def [symmetric])
          with f3 f4 show ?thesis
            unfolding h1_def by (auto intro: commitQueueFrame_trans)
        next
          case (Inr h4)
          with assms \<open>commitUpdateEffects h1 (firstEffect (queues h1 q)) i = Some out1\<close>
            \<open>out1 = Inr h2\<close> Some
          have "out = Inr (writeQueue h4 q
              (\<lambda>r. r\<lparr>firstCapturedEffect := None, lastCapturedEffect := None\<rparr>))"
            by (simp add: commitUpdateQueue_def h1_def [symmetric] h3_def [symmetric])
          moreover have "commitQueueFrame q h1 h4"
            using f3 f4 unfolding Inr storeOf_simps by (rule commitQueueFrame_trans)
          ultimately show ?thesis
            unfolding h1_def
            using commitQueueFrame_clearEffects(2) [of q h4]
            by (auto intro: commitQueueFrame_trans)
        qed
      qed
    qed
  qed
qed

lemma joinCapturedUpdates_effects:
  "\<forall>a. callback (updates (joinCapturedUpdates h q) a) = callback (updates h a) \<and>
       nextEffect (updates (joinCapturedUpdates h q) a) = nextEffect (updates h a)"
  "called (joinCapturedUpdates h q) = called h"
  "firstEffect (queues (joinCapturedUpdates h q) q) = firstEffect (queues h q)"
  "firstCapturedEffect (queues (joinCapturedUpdates h q) q) = firstCapturedEffect (queues h q)"
  by (simp_all add: joinCapturedUpdates_def writeQueue_def writeUpdate_def Let_def
      split: option.splits)

lemma calledOnce_append:
  assumes 1: "calledOnce h i rs1 h2" and 2: "calledOnce h3 i rs2 h4"
    and cb: "\<forall>a. callback (updates h3 a) = callback (updates h2 a)"
    and cl: "called h3 = called h2"
    and f12: "commitFrame h h2" and f34: "commitFrame h3 h4"
  shows "calledOnce h i (rs1 @ rs2) h4"
proof -
  have d: "set rs1 \<inter> set rs2 = {}"
    using 1 2 cb by (auto simp: calledOnce_def)
  have a: "\<forall>e \<in> set rs1. callback (updates h e) \<noteq> None \<and> callback (updates h4 e) = None"
    using 1 cb commitFrame_cleared [OF f34] by (auto simp: calledOnce_def)
  have same: "\<forall>e \<in> set rs2. callback (updates h3 e) = callback (updates h e)"
    using 2 cb commitFrame_callback [OF f12] by (auto simp: calledOnce_def)
  then have b: "\<forall>e \<in> set rs2. callback (updates h e) \<noteq> None \<and> callback (updates h4 e) = None"
    using 2 by (auto simp: calledOnce_def)
  have "map (\<lambda>e. (the (callback (updates h3 e)), i)) rs2 =
      map (\<lambda>e. (the (callback (updates h e)), i)) rs2"
    using same by simp
  then have c: "called h4 = called h @ map (\<lambda>e. (the (callback (updates h e)), i)) (rs1 @ rs2)"
    using 1 2 cl by (simp add: calledOnce_def)
  show ?thesis
    unfolding calledOnce_def using 1 2 d a b c by (auto simp: calledOnce_def)
qed

lemma calledOnce_cong:
  "calledOnce h i rs h' \<Longrightarrow> updates h0 = updates h \<or> (\<forall>a. callback (updates h0 a) = callback (updates h a)) \<Longrightarrow>
   called h0 = called h \<Longrightarrow> calledOnce h0 i rs h'"
  by (auto simp: calledOnce_def)

lemma calledOnce_store:
  "calledOnce h i rs h' \<Longrightarrow> updates h'' = updates h' \<Longrightarrow> called h'' = called h' \<Longrightarrow>
   calledOnce h i rs h''"
  by (auto simp: calledOnce_def)

lemma allReturn_append: "allReturn h (es @ cs) = (allReturn h es \<and> allReturn h cs)"
  by (auto simp: allReturn_def)

lemma allReturn_frame:
  "commitFrame h h' \<Longrightarrow> allReturn h es \<Longrightarrow> allReturn h' es"
  unfolding allReturn_def using commitFrame_callback
  by (metis option.distinct(1))

lemma commitUpdateQueue_lists:
  assumes es: "effectList h (firstEffect (queues h q)) es"
    and cs: "effectList h (firstCapturedEffect (queues h q)) cs"
  shows "\<exists>out rs. commitUpdateQueue h fw q i r = Some out \<and>
     set rs \<subseteq> set (es @ cs) \<and> calledOnce h i rs (storeOf out) \<and>
     (\<forall>h'. out = Inr h' \<longrightarrow>
        firstEffect (queues h' q) = None \<and> lastEffect (queues h' q) = None \<and>
        firstCapturedEffect (queues h' q) = None \<and> lastCapturedEffect (queues h' q) = None \<and>
        set rs = {e \<in> set (es @ cs). callback (updates h e) \<noteq> None} \<and>
        (\<forall>a. a \<notin> set rs \<longrightarrow> callback (updates h' a) = callback (updates h a))) \<and>
     (allReturn h (es @ cs) \<longrightarrow> (\<exists>h'. out = Inr h'))"
proof -
  define h1 where "h1 = joinCapturedUpdates h q"
  note j = joinCapturedUpdates_effects [of h q, folded h1_def]
  have cb1: "\<forall>a. callback (updates h1 a) = callback (updates h a)" using j(1) by simp
  have ne1: "\<And>a. nextEffect (updates h1 a) = nextEffect (updates h a)" using j(1) by simp
  have es1: "effectList h1 (firstEffect (queues h1 q)) es"
    using es unfolding effectList_def j(3) by (simp add: ne1)
  from commitUpdateEffects_list [OF es1, of i] obtain out1 rs1 where
    run1: "commitUpdateEffects h1 (firstEffect (queues h1 q)) i = Some out1"
    and fr1: "commitFrame h1 (storeOf out1)"
    and sub1: "set rs1 \<subseteq> set es"
    and once1: "calledOnce h1 i rs1 (storeOf out1)"
    and ret1: "\<forall>h'. out1 = Inr h' \<longrightarrow>
        set rs1 = {e \<in> set es. callback (updates h1 e) \<noteq> None} \<and>
        (\<forall>a. a \<notin> set rs1 \<longrightarrow> callback (updates h' a) = callback (updates h1 a))"
    and good1: "allReturn h1 es \<longrightarrow> (\<exists>h'. out1 = Inr h')"
    by blast
  have once1': "calledOnce h i rs1 (storeOf out1)"
    using once1 cb1 j(2) by (auto simp: calledOnce_def)
  have ar: "\<And>xs. allReturn h1 xs = allReturn h xs"
    using cb1 by (simp add: allReturn_def)
  show ?thesis
  proof (cases out1)
    case (Inl err)
    then have run: "commitUpdateQueue h fw q i r = Some out1"
      using run1 by (simp add: commitUpdateQueue_def h1_def [symmetric])
    have "\<not> allReturn h (es @ cs)"
      using good1 Inl by (auto simp: ar allReturn_append)
    with run sub1 once1' Inl show ?thesis
      by (intro exI [of _ out1] exI [of _ rs1]) auto
  next
    case (Inr h2)
    note o1 = this
    define h3 where "h3 = writeQueue h2 q (\<lambda>r. r\<lparr>firstEffect := None, lastEffect := None\<rparr>)"
    have fr12: "commitFrame h1 h2" using fr1 by (simp add: o1)
    have u3: "updates h3 = updates h2" "called h3 = called h2"
      by (simp_all add: h3_def writeQueue_def)
    have q3: "firstCapturedEffect (queues h3 q) = firstCapturedEffect (queues h q)"
      "firstEffect (queues h3 q) = None" "lastEffect (queues h3 q) = None"
      using fr12 j(4) by (simp_all add: h3_def writeQueue_def commitFrame_def)
    have cs3: "effectList h3 (firstCapturedEffect (queues h3 q)) cs"
      using cs fr12 unfolding effectList_def q3(1) u3(1)
      by (simp add: ne1 commitFrame_def)
    from commitUpdateEffects_list [OF cs3, of i] obtain out2 rs2 where
      run2: "commitUpdateEffects h3 (firstCapturedEffect (queues h3 q)) i = Some out2"
      and fr2: "commitFrame h3 (storeOf out2)"
      and sub2: "set rs2 \<subseteq> set cs"
      and once2: "calledOnce h3 i rs2 (storeOf out2)"
      and ret2: "\<forall>h'. out2 = Inr h' \<longrightarrow>
          set rs2 = {e \<in> set cs. callback (updates h3 e) \<noteq> None} \<and>
          (\<forall>a. a \<notin> set rs2 \<longrightarrow> callback (updates h' a) = callback (updates h3 a))"
      and good2: "allReturn h3 cs \<longrightarrow> (\<exists>h'. out2 = Inr h')"
      by blast
    have once12: "calledOnce h1 i (rs1 @ rs2) (storeOf out2)"
      using once1 [unfolded o1 storeOf_simps] once2 _ u3(2) fr12 fr2
      by (rule calledOnce_append) (simp add: u3(1))
    have once: "calledOnce h i (rs1 @ rs2) (storeOf out2)"
      using once12 cb1 j(2) by (auto simp: calledOnce_def)
    have sub: "set (rs1 @ rs2) \<subseteq> set (es @ cs)" using sub1 sub2 by auto
    have ar3: "allReturn h (es @ cs) \<longrightarrow> allReturn h3 cs"
    proof
      assume "allReturn h (es @ cs)"
      then have "allReturn h1 cs" by (simp add: ar allReturn_append)
      then have "allReturn h2 cs" using fr12 by (rule allReturn_frame [rotated])
      then show "allReturn h3 cs" by (simp add: allReturn_def u3(1))
    qed
    show ?thesis
    proof (cases out2)
      case (Inl err)
      then have run: "commitUpdateQueue h fw q i r = Some out2"
        using run1 o1 run2
        by (simp add: commitUpdateQueue_def h1_def [symmetric] h3_def [symmetric])
      have "\<not> allReturn h (es @ cs)"
        using good2 ar3 Inl by auto
      with run sub once Inl show ?thesis
        by (intro exI [of _ out2] exI [of _ "rs1 @ rs2"]) auto
    next
      case (Inr h4)
      note o2 = this
      define h5 where "h5 = writeQueue h4 q
        (\<lambda>r. r\<lparr>firstCapturedEffect := None, lastCapturedEffect := None\<rparr>)"
      have run: "commitUpdateQueue h fw q i r = Some (Inr h5)"
        using run1 o1 run2 o2
        by (simp add: commitUpdateQueue_def h1_def [symmetric] h3_def [symmetric] h5_def)
      have fr34: "commitFrame h3 h4" using fr2 by (simp add: o2)
      have u5: "updates h5 = updates h4" "called h5 = called h4"
        by (simp_all add: h5_def writeQueue_def)
      have once5: "calledOnce h i (rs1 @ rs2) h5"
        using once [unfolded o2 storeOf_simps] u5 by (rule calledOnce_store)
      have ptr: "firstEffect (queues h5 q) = None" "lastEffect (queues h5 q) = None"
        "firstCapturedEffect (queues h5 q) = None" "lastCapturedEffect (queues h5 q) = None"
        using fr34 q3 by (simp_all add: h5_def writeQueue_def commitFrame_def)
      from ret1 o1 have r1: "set rs1 = {e \<in> set es. callback (updates h e) \<noteq> None}"
        and k1: "\<forall>a. a \<notin> set rs1 \<longrightarrow> callback (updates h2 a) = callback (updates h a)"
        by (simp_all add: cb1)
      from ret2 o2 have r2: "set rs2 = {e \<in> set cs. callback (updates h2 e) \<noteq> None}"
        and k2: "\<forall>a. a \<notin> set rs2 \<longrightarrow> callback (updates h4 a) = callback (updates h2 a)"
        by (simp_all add: u3(1))
      have n1: "\<forall>a \<in> set rs1. callback (updates h2 a) = None"
        using once1 o1 by (auto simp: calledOnce_def)
      have set: "set (rs1 @ rs2) = {e \<in> set (es @ cs). callback (updates h e) \<noteq> None}"
      proof (intro set_eqI iffI)
        fix a assume "a \<in> set (rs1 @ rs2)"
        then show "a \<in> {e \<in> set (es @ cs). callback (updates h e) \<noteq> None}"
          using once5 sub by (auto simp: calledOnce_def)
      next
        fix a assume a: "a \<in> {e \<in> set (es @ cs). callback (updates h e) \<noteq> None}"
        show "a \<in> set (rs1 @ rs2)"
        proof (cases "a \<in> set rs1")
          case True then show ?thesis by simp
        next
          case False
          with a r1 have "a \<in> set cs" by auto
          moreover from False k1 a have "callback (updates h2 a) \<noteq> None" by auto
          ultimately show ?thesis using r2 by auto
        qed
      qed
      have keep: "\<forall>a. a \<notin> set (rs1 @ rs2) \<longrightarrow> callback (updates h5 a) = callback (updates h a)"
        using k1 k2 by (simp add: u5(1))
      have inr: "\<forall>h'. (Inr h5 :: outcome) = Inr h' \<longrightarrow>
          firstEffect (queues h' q) = None \<and> lastEffect (queues h' q) = None \<and>
          firstCapturedEffect (queues h' q) = None \<and> lastCapturedEffect (queues h' q) = None \<and>
          set (rs1 @ rs2) = {e \<in> set (es @ cs). callback (updates h e) \<noteq> None} \<and>
          (\<forall>a. a \<notin> set (rs1 @ rs2) \<longrightarrow> callback (updates h' a) = callback (updates h a))"
      proof (intro allI impI)
        fix h' assume "(Inr h5 :: outcome) = Inr h'"
        then have "h' = h5" by simp
        with ptr set keep show "firstEffect (queues h' q) = None \<and> lastEffect (queues h' q) = None \<and>
          firstCapturedEffect (queues h' q) = None \<and> lastCapturedEffect (queues h' q) = None \<and>
          set (rs1 @ rs2) = {e \<in> set (es @ cs). callback (updates h e) \<noteq> None} \<and>
          (\<forall>a. a \<notin> set (rs1 @ rs2) \<longrightarrow> callback (updates h' a) = callback (updates h a))"
          by blast
      qed
      have once5': "calledOnce h i (rs1 @ rs2) (storeOf (Inr h5))"
        using once5 by simp
      have good: "allReturn h (es @ cs) \<longrightarrow> (\<exists>h'. (Inr h5 :: outcome) = Inr h')"
        by simp
      from run sub once5' inr good show ?thesis
        by blast
    qed
  qed
qed

lemma linked_unique: "linked nxt p xs \<Longrightarrow> linked nxt p ys \<Longrightarrow> xs = ys"
proof (induction xs arbitrary: p ys)
  case Nil
  then show ?case by (cases ys) auto
next
  case (Cons a as)
  then show ?case by (cases ys) auto
qed

lemma linked_suffix: "linked nxt p (xs @ ys) \<Longrightarrow> \<exists>p'. linked nxt p' ys"
  by (induction xs arbitrary: p) auto

lemma linked_distinct: "linked nxt p xs \<Longrightarrow> distinct xs"
proof (induction xs arbitrary: p)
  case Nil
  show ?case by simp
next
  case (Cons a as)
  have "a \<notin> set as"
  proof
    assume "a \<in> set as"
    then obtain us vs where as: "as = us @ a # vs" by (auto simp: in_set_conv_decomp)
    with Cons.prems have "linked nxt (nxt a) (us @ a # vs)" by simp
    from linked_suffix [OF this] obtain p' where "linked nxt p' (a # vs)" by blast
    then have "linked nxt (Some a) (a # vs)" by simp
    moreover from Cons.prems have "linked nxt (Some a) (a # as)" by simp
    ultimately have "a # vs = a # as" by (rule linked_unique)
    with as show False by simp
  qed
  moreover from Cons have "distinct as" by auto
  ultimately show ?case by simp
qed

lemma linked_join_aux:
  "linked nxt p xs \<Longrightarrow> xs \<noteq> [] \<Longrightarrow> distinct xs \<Longrightarrow>
   linked (nxt(last xs := c)) c ys \<Longrightarrow> linked (nxt(last xs := c)) p (xs @ ys)"
proof (induction xs arbitrary: p)
  case Nil
  then show ?case by simp
next
  case (Cons a as)
  show ?case
  proof (cases "as = []")
    case True
    with Cons.prems show ?thesis by simp
  next
    case False
    with Cons.prems have "a \<noteq> last as" by auto
    with Cons.prems False Cons.IH [of "nxt a"] show ?thesis by simp
  qed
qed

lemma linked_join:
  assumes "linked nxt p xs" and "xs \<noteq> []" and "linked nxt c ys" and "last xs \<notin> set ys"
  shows "linked (nxt(last xs := c)) p (xs @ ys)"
proof -
  have "linked (nxt(last xs := c)) c ys = linked nxt c ys"
    using assms(4) by (intro linked_cong) auto
  with assms(3) have "linked (nxt(last xs := c)) c ys" by simp
  with assms(1,2) linked_distinct [OF assms(1)] show ?thesis
    by (rule linked_join_aux)
qed

lemma joinCapturedUpdates_pointers:
  assumes "firstCapturedUpdate (queues h q) \<noteq> None"
  shows "firstCapturedUpdate (queues (joinCapturedUpdates h q) q) = None"
    and "lastCapturedUpdate (queues (joinCapturedUpdates h q) q) = None"
    and "firstUpdate (queues (joinCapturedUpdates h q) q) = firstUpdate (queues h q)"
    and "lastUpdate (queues (joinCapturedUpdates h q) q) =
      (case lastUpdate (queues h q) of None \<Rightarrow> None | Some l \<Rightarrow> lastCapturedUpdate (queues h q))"
    and "(\<lambda>a. nextUpdate (updates (joinCapturedUpdates h q) a)) =
      (case lastUpdate (queues h q) of
         None \<Rightarrow> (\<lambda>a. nextUpdate (updates h a))
       | Some l \<Rightarrow> (\<lambda>a. nextUpdate (updates h a))(l := firstCapturedUpdate (queues h q)))"
  using assms
  by (auto simp add: joinCapturedUpdates_def writeQueue_def writeUpdate_def Let_def fun_eq_iff
      split: option.splits)

lemmas commit_simps =
  commitUpdateQueue_def joinCapturedUpdates_def commitUpdateEffects_None
  commitUpdateEffects_Some callCallback_def

subsection \<open>Callbacks are called at most once\<close>

text \<open>
  Claim C9. Take a queue whose effect list \<open>es\<close> and captured effect list \<open>cs\<close> end in
  null. The commit returns or throws (it does not run for ever). The calls it makes are
  the callbacks of a list \<open>rs\<close> of distinct records of the two lists, in this order, each
  with the instance as receiver: no record has its callback called twice. Each of these
  records has a null \<open>callback\<close> in the store the commit leaves, also when the commit
  ends in the throw of the last of these callbacks: the field is cleared before the call.
  When the commit returns, \<open>firstEffect\<close>, \<open>lastEffect\<close>, \<open>firstCapturedEffect\<close> and
  \<open>lastCapturedEffect\<close> are null, \<open>rs\<close> are all the records of the lists that had a
  callback, and no record of the lists has a callback left. It returns when every callback
  is a function that returns.
\<close>

theorem callbacks_at_most_once:
  assumes "effectList h (firstEffect (queues h q)) es"
    and "effectList h (firstCapturedEffect (queues h q)) cs"
  shows "\<exists>out rs. commitUpdateQueue h fw q inst r = Some out \<and>
     distinct rs \<and> set rs \<subseteq> set (es @ cs) \<and>
     called (storeOf out) = called h @ map (\<lambda>e. (the (callback (updates h e)), inst)) rs \<and>
     (\<forall>e \<in> set rs. callback (updates h e) \<noteq> None \<and>
                     callback (updates (storeOf out) e) = None) \<and>
     (\<forall>h'. out = Inr h' \<longrightarrow>
        firstEffect (queues h' q) = None \<and> lastEffect (queues h' q) = None \<and>
        firstCapturedEffect (queues h' q) = None \<and> lastCapturedEffect (queues h' q) = None \<and>
        set rs = {e \<in> set (es @ cs). callback (updates h e) \<noteq> None} \<and>
        (\<forall>e \<in> set (es @ cs). callback (updates h' e) = None)) \<and>
     (allReturn h (es @ cs) \<longrightarrow> (\<exists>h'. out = Inr h'))"
proof -
  from commitUpdateQueue_lists [OF assms, of fw inst r] obtain out rs where
    run: "commitUpdateQueue h fw q inst r = Some out"
    and sub: "set rs \<subseteq> set (es @ cs)"
    and once: "calledOnce h inst rs (storeOf out)"
    and ret: "\<forall>h'. out = Inr h' \<longrightarrow>
        firstEffect (queues h' q) = None \<and> lastEffect (queues h' q) = None \<and>
        firstCapturedEffect (queues h' q) = None \<and> lastCapturedEffect (queues h' q) = None \<and>
        set rs = {e \<in> set (es @ cs). callback (updates h e) \<noteq> None} \<and>
        (\<forall>a. a \<notin> set rs \<longrightarrow> callback (updates h' a) = callback (updates h a))"
    and good: "allReturn h (es @ cs) \<longrightarrow> (\<exists>h'. out = Inr h')"
    by blast
  have ret': "\<forall>h'. out = Inr h' \<longrightarrow>
        firstEffect (queues h' q) = None \<and> lastEffect (queues h' q) = None \<and>
        firstCapturedEffect (queues h' q) = None \<and> lastCapturedEffect (queues h' q) = None \<and>
        set rs = {e \<in> set (es @ cs). callback (updates h e) \<noteq> None} \<and>
        (\<forall>e \<in> set (es @ cs). callback (updates h' e) = None)"
  proof (intro allI impI)
    fix h' assume o: "out = Inr h'"
    with ret have p: "firstEffect (queues h' q) = None \<and> lastEffect (queues h' q) = None \<and>
        firstCapturedEffect (queues h' q) = None \<and> lastCapturedEffect (queues h' q) = None"
      and s: "set rs = {e \<in> set (es @ cs). callback (updates h e) \<noteq> None}"
      and k: "\<forall>a. a \<notin> set rs \<longrightarrow> callback (updates h' a) = callback (updates h a)"
      by auto
    have "\<forall>e \<in> set (es @ cs). callback (updates h' e) = None"
    proof
      fix e assume e: "e \<in> set (es @ cs)"
      show "callback (updates h' e) = None"
      proof (cases "e \<in> set rs")
        case True
        with once o show ?thesis by (auto simp: calledOnce_def)
      next
        case False
        with s e have "callback (updates h e) = None" by auto
        with k False show ?thesis by simp
      qed
    qed
    with p s show "firstEffect (queues h' q) = None \<and> lastEffect (queues h' q) = None \<and>
        firstCapturedEffect (queues h' q) = None \<and> lastCapturedEffect (queues h' q) = None \<and>
        set rs = {e \<in> set (es @ cs). callback (updates h e) \<noteq> None} \<and>
        (\<forall>e \<in> set (es @ cs). callback (updates h' e) = None)"
      by blast
  qed
  from once have "distinct rs"
    and "called (storeOf out) = called h @ map (\<lambda>e. (the (callback (updates h e)), inst)) rs"
    and "\<forall>e \<in> set rs. callback (updates h e) \<noteq> None \<and> callback (updates (storeOf out) e) = None"
    by (simp_all add: calledOnce_def)
  with run sub ret' good show ?thesis by blast
qed

text \<open>
  The updates A and B with the callbacks 1 and 2, processed and then committed with the
  instance \<open>"I"\<close>: callback 1 and then callback 2 are called, once each, on \<open>"I"\<close>.
\<close>

theorem callbacks_at_most_once_witness:
  "\<exists>h'. commitUpdateQueue callbackStore 0 0 (JStr ''I'') 1 = Some (Inr h') \<and>
     called callbackStore = [] \<and>
     called h' = [(CallbackFunction 1 False, JStr ''I''), (CallbackFunction 2 False, JStr ''I'')] \<and>
     callback (updates h' 0) = None \<and> callback (updates h' 1) = None \<and>
     firstEffect (queues h' 0) = None \<and> lastEffect (queues h' 0) = None \<and>
     firstCapturedEffect (queues h' 0) = None \<and> lastCapturedEffect (queues h' 0) = None"
proof -
  define H where "H = storeOf (the (commitUpdateQueue callbackStore 0 0 (JStr ''I'') 1))"
  note ev = callbackStore_def store_simps run_simps commit_simps
  have 1: "effectList callbackStore (firstEffect (queues callbackStore 0)) [0, 1]"
    by (simp add: ev)
  have 2: "effectList callbackStore (firstCapturedEffect (queues callbackStore 0)) []"
    by (simp add: ev)
  have run: "commitUpdateQueue callbackStore 0 0 (JStr ''I'') 1 = Some (Inr H)"
    unfolding H_def by (simp add: ev)
  have c: "called callbackStore = []"
    "called H = [(CallbackFunction 1 False, JStr ''I''), (CallbackFunction 2 False, JStr ''I'')]"
    unfolding H_def by (simp_all add: ev)
  from callbacks_at_most_once [OF 1 2, of 0 "JStr ''I''" 1] run
  have "firstEffect (queues H 0) = None \<and> lastEffect (queues H 0) = None \<and>
      firstCapturedEffect (queues H 0) = None \<and> lastCapturedEffect (queues H 0) = None \<and>
      (\<forall>e \<in> set ([0, 1] @ []). callback (updates H e) = None)"
    by auto
  then have "firstEffect (queues H 0) = None \<and> lastEffect (queues H 0) = None \<and>
      firstCapturedEffect (queues H 0) = None \<and> lastCapturedEffect (queues H 0) = None \<and>
      callback (updates H 0) = None \<and> callback (updates H 1) = None"
    by simp
  with run c show ?thesis by blast
qed

subsection \<open>Committing: the captured list\<close>

text \<open>
  Claim C6, as amended. Take a queue with \<open>firstCapturedUpdate\<close> not null, and any store
  that the commit leaves. \<open>firstCapturedUpdate\<close> and \<open>lastCapturedUpdate\<close> are null there
  and \<open>firstUpdate\<close> is as before. If \<open>lastUpdate\<close> was a record \<open>l\<close>, then the \<open>next\<close>
  of \<open>l\<close> is the former \<open>firstCapturedUpdate\<close>, \<open>lastUpdate\<close> is the former
  \<open>lastCapturedUpdate\<close>, and when \<open>l\<close> was the last record of the list of updates and is
  not on the captured list, the list of updates is now the former one followed by the
  captured one. If \<open>lastUpdate\<close> was null, nothing is joined: \<open>lastUpdate\<close> stays null,
  no \<open>next\<close> is written, and the captured updates are no longer in the queue. The commit
  leaves a store whenever the two effect lists end in null.
\<close>

theorem commit_splice:
  assumes "firstCapturedUpdate (queues h q) \<noteq> None"
  shows "(\<forall>out. commitUpdateQueue h fw q i r = Some out \<longrightarrow>
       firstCapturedUpdate (queues (storeOf out) q) = None \<and>
       lastCapturedUpdate (queues (storeOf out) q) = None \<and>
       firstUpdate (queues (storeOf out) q) = firstUpdate (queues h q) \<and>
       (case lastUpdate (queues h q) of
          None \<Rightarrow>
            lastUpdate (queues (storeOf out) q) = None \<and>
            (\<forall>a. nextUpdate (updates (storeOf out) a) = nextUpdate (updates h a))
        | Some l \<Rightarrow>
            nextUpdate (updates (storeOf out) l) = firstCapturedUpdate (queues h q) \<and>
            lastUpdate (queues (storeOf out) q) = lastCapturedUpdate (queues h q) \<and>
            (\<forall>xs ys. updateList h (firstUpdate (queues h q)) xs \<and> xs \<noteq> [] \<and> last xs = l \<and>
               updateList h (firstCapturedUpdate (queues h q)) ys \<and> l \<notin> set ys \<longrightarrow>
               updateList (storeOf out) (firstUpdate (queues (storeOf out) q)) (xs @ ys)))) \<and>
     (\<forall>es cs. effectList h (firstEffect (queues h q)) es \<and>
        effectList h (firstCapturedEffect (queues h q)) cs \<longrightarrow>
        commitUpdateQueue h fw q i r \<noteq> None)"
proof (intro conjI allI impI)
  fix es cs
  assume "effectList h (firstEffect (queues h q)) es \<and>
    effectList h (firstCapturedEffect (queues h q)) cs"
  then show "commitUpdateQueue h fw q i r \<noteq> None"
    using commitUpdateQueue_lists [of h q es cs fw i r] by auto
next
  fix out assume run: "commitUpdateQueue h fw q i r = Some out"
  define h1 where "h1 = joinCapturedUpdates h q"
  define h' where "h' = storeOf out"
  note j = joinCapturedUpdates_pointers [OF assms, folded h1_def]
  have fr: "commitQueueFrame q h1 h'"
    unfolding h1_def h'_def using run by (rule commitUpdateQueue_frame)
  have nu: "(\<lambda>a. nextUpdate (updates h' a)) = (\<lambda>a. nextUpdate (updates h1 a))"
    using fr by (simp add: commitQueueFrame_def)
  show "firstCapturedUpdate (queues h' q) = None"
    using fr j(1) by (simp add: commitQueueFrame_def)
  show "lastCapturedUpdate (queues h' q) = None"
    using fr j(2) by (simp add: commitQueueFrame_def)
  show fu: "firstUpdate (queues h' q) = firstUpdate (queues h q)"
    using fr j(3) by (simp add: commitQueueFrame_def)
  have lu: "lastUpdate (queues h' q) = lastUpdate (queues h1 q)"
    using fr by (simp add: commitQueueFrame_def)
  show "case lastUpdate (queues h q) of
      None \<Rightarrow>
        lastUpdate (queues h' q) = None \<and>
        (\<forall>a. nextUpdate (updates h' a) = nextUpdate (updates h a))
    | Some l \<Rightarrow>
        nextUpdate (updates h' l) = firstCapturedUpdate (queues h q) \<and>
        lastUpdate (queues h' q) = lastCapturedUpdate (queues h q) \<and>
        (\<forall>xs ys. updateList h (firstUpdate (queues h q)) xs \<and> xs \<noteq> [] \<and> last xs = l \<and>
           updateList h (firstCapturedUpdate (queues h q)) ys \<and> l \<notin> set ys \<longrightarrow>
           updateList h' (firstUpdate (queues h' q)) (xs @ ys))"
  proof (cases "lastUpdate (queues h q)")
    case None
    with j(4,5) lu nu show ?thesis by (simp add: fun_eq_iff)
  next
    case (Some l)
    have nu1: "(\<lambda>a. nextUpdate (updates h' a)) =
        (\<lambda>a. nextUpdate (updates h a))(l := firstCapturedUpdate (queues h q))"
      using j(5) nu Some by simp
    have "nextUpdate (updates h' l) = firstCapturedUpdate (queues h q)"
      using fun_cong [OF nu1, of l] by simp
    moreover have "lastUpdate (queues h' q) = lastCapturedUpdate (queues h q)"
      using j(4) lu Some by simp
    moreover have "\<forall>xs ys. updateList h (firstUpdate (queues h q)) xs \<and> xs \<noteq> [] \<and> last xs = l \<and>
           updateList h (firstCapturedUpdate (queues h q)) ys \<and> l \<notin> set ys \<longrightarrow>
           updateList h' (firstUpdate (queues h' q)) (xs @ ys)"
    proof (intro allI impI, elim conjE)
      fix xs ys
      assume xs: "updateList h (firstUpdate (queues h q)) xs" and ne: "xs \<noteq> []"
        and l: "last xs = l" and ys: "updateList h (firstCapturedUpdate (queues h q)) ys"
        and nin: "l \<notin> set ys"
      from linked_join [OF xs [unfolded updateList_def] ne ys [unfolded updateList_def]] nin l
      show "updateList h' (firstUpdate (queues h' q)) (xs @ ys)"
        unfolding updateList_def nu1 fu by simp
    qed
    ultimately show ?thesis using Some by simp
  qed
qed

text \<open>
  The updates A and B followed by the captured updates C and D: the commit writes the
  \<open>next\<close> of B and leaves the list A, B, C, D.
\<close>

theorem commit_splice_witness:
  "\<exists>out. commitUpdateQueue (capturedLettersStore 1 1 1 1) 0 0 JNull 1 = Some out \<and>
     firstCapturedUpdate (queues (storeOf out) 0) = None \<and>
     lastCapturedUpdate (queues (storeOf out) 0) = None \<and>
     nextUpdate (updates (storeOf out) 1) = Some 2 \<and>
     lastUpdate (queues (storeOf out) 0) = Some 3 \<and>
     updateList (storeOf out) (firstUpdate (queues (storeOf out) 0)) [0, 1, 2, 3]"
proof -
  define S where "S = capturedLettersStore 1 1 1 1"
  note ev = S_def store_simps run_simps
  have 1: "firstCapturedUpdate (queues S 0) \<noteq> None" by (simp add: ev)
  have 2: "firstCapturedUpdate (queues S 0) = Some 2" "lastCapturedUpdate (queues S 0) = Some 3"
    "lastUpdate (queues S 0) = Some 1"
    by (simp_all add: ev)
  have 3: "updateList S (firstUpdate (queues S 0)) [0, 1] \<and> [0, 1::nat] \<noteq> [] \<and>
     last [0, 1::nat] = 1 \<and> updateList S (firstCapturedUpdate (queues S 0)) [2, 3] \<and>
     1 \<notin> set [2, 3::nat]"
    by (simp add: ev)
  have 4: "effectList S (firstEffect (queues S 0)) [] \<and>
    effectList S (firstCapturedEffect (queues S 0)) []"
    by (simp add: ev)
  note t = commit_splice [OF 1, of 0 JNull 1, unfolded 2 option.case]
  from t 4 have "commitUpdateQueue S 0 0 JNull 1 \<noteq> None" by blast
  then obtain out where run: "commitUpdateQueue S 0 0 JNull 1 = Some out" by blast
  with t have a: "firstCapturedUpdate (queues (storeOf out) 0) = None"
    and b: "lastCapturedUpdate (queues (storeOf out) 0) = None"
    and c: "nextUpdate (updates (storeOf out) 1) = Some 2"
    and d: "lastUpdate (queues (storeOf out) 0) = Some 3"
    and e: "\<forall>xs ys. updateList S (firstUpdate (queues S 0)) xs \<and> xs \<noteq> [] \<and> last xs = 1 \<and>
               updateList S (Some 2) ys \<and> 1 \<notin> set ys \<longrightarrow>
               updateList (storeOf out) (firstUpdate (queues (storeOf out) 0)) (xs @ ys)"
    by blast+
  from e 3 have "updateList (storeOf out) (firstUpdate (queues (storeOf out) 0)) ([0, 1] @ [2, 3])"
    unfolding 2 by blast
  then have f: "updateList (storeOf out) (firstUpdate (queues (storeOf out) 0)) [0, 1, 2, 3]"
    by simp
  from run a b c d f show ?thesis
    unfolding S_def by blast
qed

text \<open>
  The claim as stated, for every queue with \<open>firstCapturedUpdate\<close> not null, fails when
  \<open>lastUpdate\<close> is null. After the pass that applies A and B and skips the captured
  update C, the queue has the captured list C, D and no update; the commit leaves
  \<open>firstUpdate\<close> and \<open>lastUpdate\<close> null, not the captured list.
\<close>

theorem commit_splice_counterexample:
  "firstCapturedUpdate (queues skippedCaptureStore 0) = Some 2 \<and>
   lastCapturedUpdate (queues skippedCaptureStore 0) = Some 3 \<and>
   updateList skippedCaptureStore (firstCapturedUpdate (queues skippedCaptureStore 0)) [2, 3] \<and>
   lastUpdate (queues skippedCaptureStore 0) = None \<and>
   commitUpdateQueue skippedCaptureStore 0 0 JNull 2 \<noteq> None \<and>
   firstUpdate (queues (storeOf (the (commitUpdateQueue skippedCaptureStore 0 0 JNull 2))) 0)
     = None \<and>
   lastUpdate (queues (storeOf (the (commitUpdateQueue skippedCaptureStore 0 0 JNull 2))) 0)
     = None \<and>
   firstCapturedUpdate
     (queues (storeOf (the (commitUpdateQueue skippedCaptureStore 0 0 JNull 2))) 0) = None"
  by (simp add: skippedCaptureStore_def store_simps run_simps commit_simps)

subsection \<open>Enqueueing on a fiber with an alternate\<close>

lemmas enqueue_defs =
  enqueueUpdate_def enqueueUpdate_queues_def createUpdateQueue_def cloneUpdateQueue_def
  appendUpdateToQueue_def writeQueue_def writeFiber_def writeUpdate_def Let_def

lemma enqueueUpdate_tails:
  assumes "alternate (fibers h fib) = Some alt"
  shows "\<exists>q1 q2. fiberUpdateQueue (fibers (enqueueUpdate h fib u) fib) = Some q1 \<and>
     fiberUpdateQueue (fibers (enqueueUpdate h fib u) alt) = Some q2 \<and>
     lastUpdate (queues (enqueueUpdate h fib u) q1) = Some u \<and>
     lastUpdate (queues (enqueueUpdate h fib u) q2) = Some u"
  using assms by (auto simp: enqueue_defs split: option.splits)

lemma enqueueUpdate_records:
  assumes "alternate (fibers h fib) = Some alt"
    and "\<forall>q. fiberUpdateQueue (fibers h fib) = Some q \<or> fiberUpdateQueue (fibers h alt) = Some q
           \<longrightarrow> lastUpdate (queues h q) \<noteq> Some u"
  shows "updates (enqueueUpdate h fib u) = updates h \<or>
     (\<exists>l. l \<noteq> u \<and>
        updates (enqueueUpdate h fib u) = (updates h)(l := (updates h l)\<lparr>nextUpdate := Some u\<rparr>))"
  using assms by (auto simp: enqueue_defs split: option.splits)

text \<open>
  Claim C7. The fiber has an alternate, and the update \<open>u\<close> is not already the last update
  of a queue of the two fibers (it is a new record). After \<open>enqueueUpdate\<close> both fibers
  have a queue, created or cloned where it was missing, and \<open>lastUpdate\<close> of both queues
  is \<open>u\<close>. At most one record was written, a record other than \<open>u\<close> whose \<open>next\<close> now
  is \<open>u\<close>: the update is appended once to the shared list, and its own \<open>next\<close> is what
  it was (null for a record from \<open>createUpdate\<close>), so it is not its own \<open>next\<close>.
\<close>

theorem structural_sharing:
  assumes "alternate (fibers h fib) = Some alt"
    and "\<forall>q. fiberUpdateQueue (fibers h fib) = Some q \<or> fiberUpdateQueue (fibers h alt) = Some q
           \<longrightarrow> lastUpdate (queues h q) \<noteq> Some u"
  shows "\<exists>q1 q2. fiberUpdateQueue (fibers (enqueueUpdate h fib u) fib) = Some q1 \<and>
     fiberUpdateQueue (fibers (enqueueUpdate h fib u) alt) = Some q2 \<and>
     lastUpdate (queues (enqueueUpdate h fib u) q1) = Some u \<and>
     lastUpdate (queues (enqueueUpdate h fib u) q2) = Some u \<and>
     nextUpdate (updates (enqueueUpdate h fib u) u) = nextUpdate (updates h u) \<and>
     (updates (enqueueUpdate h fib u) = updates h \<or>
      (\<exists>l. l \<noteq> u \<and>
         updates (enqueueUpdate h fib u) =
           (updates h)(l := (updates h l)\<lparr>nextUpdate := Some u\<rparr>)))"
proof -
  note r = enqueueUpdate_records [OF assms]
  from r have "nextUpdate (updates (enqueueUpdate h fib u) u) = nextUpdate (updates h u)"
    by auto
  with enqueueUpdate_tails [OF assms(1), of u] r show ?thesis by blast
qed

text \<open>
  Both fibers of the pair hold update 0; update 1 is enqueued on fiber 0. The two queues
  (headers 0 and 1) then both end in update 1, and the only record written is update 0.
\<close>

theorem structural_sharing_witness:
  "fiberUpdateQueue (fibers (enqueueUpdate sharedStore 0 1) 0) = Some 0 \<and>
   fiberUpdateQueue (fibers (enqueueUpdate sharedStore 0 1) 1) = Some 1 \<and>
   lastUpdate (queues (enqueueUpdate sharedStore 0 1) 0) = Some 1 \<and>
   lastUpdate (queues (enqueueUpdate sharedStore 0 1) 1) = Some 1 \<and>
   nextUpdate (updates (enqueueUpdate sharedStore 0 1) 1) = None \<and>
   updates (enqueueUpdate sharedStore 0 1) =
     (updates sharedStore)(0 := (updates sharedStore 0)\<lparr>nextUpdate := Some 1\<rparr>)"
proof -
  note ev = sharedStore_def pairStore_def store_simps run_simps
  have 1: "alternate (fibers sharedStore 0) = Some 1" by (simp add: ev)
  have 2: "\<forall>q. fiberUpdateQueue (fibers sharedStore 0) = Some q \<or>
      fiberUpdateQueue (fibers sharedStore 1) = Some q \<longrightarrow>
      lastUpdate (queues sharedStore q) \<noteq> Some 1"
    by (auto simp: ev)
  have 3: "fiberUpdateQueue (fibers (enqueueUpdate sharedStore 0 1) 0) = Some 0"
    "fiberUpdateQueue (fibers (enqueueUpdate sharedStore 0 1) 1) = Some 1"
    "nextUpdate (updates sharedStore 1) = None"
    "updates (enqueueUpdate sharedStore 0 1) =
     (updates sharedStore)(0 := (updates sharedStore 0)\<lparr>nextUpdate := Some 1\<rparr>)"
    by (simp_all add: ev)
  from structural_sharing [OF 1 2] 3 show ?thesis by auto
qed

subsection \<open>A pass leaves the current fiber and its queue alone\<close>

lemma processUpdates_frame:
  assumes "processUpdates h0 w0 q0 p0 i0 r0 u0 l0 = Some res0"
  shows "processingFrame w0 q0 h0 (fst res0)"
proof (rule processUpdates.raw_induct
    [where P = "\<lambda>h w q p i r u l res. processingFrame w q h (fst res)", OF _ assms], goal_cases)
  case (1 step h w q p i r u l res)
  show ?case
  proof (cases u)
    case None
    with 1(2) have "res = (h, l)" by auto
    then show ?thesis by (simp add: processingFrame_refl)
  next
    case (Some a)
    obtain h1 l1 where s: "processUpdate h w q p i r a l = (h1, l1)"
      by (cases "processUpdate h w q p i r a l")
    with 1(2) Some have "step h1 w q p i r (nextUpdate (updates h1 a)) l1 = Some res"
      by simp
    then have "processingFrame w q h1 (fst res)" by (rule 1(1))
    with processUpdate_frame [OF s] show ?thesis by (rule processingFrame_trans)
  qed
qed

lemma processCapturedUpdates_frame:
  assumes "processCapturedUpdates h0 w0 q0 p0 i0 r0 u0 l0 = Some res0"
  shows "processingFrame w0 q0 h0 (fst res0)"
proof (rule processCapturedUpdates.raw_induct
    [where P = "\<lambda>h w q p i r u l res. processingFrame w q h (fst res)", OF _ assms], goal_cases)
  case (1 step h w q p i r u l res)
  show ?case
  proof (cases u)
    case None
    with 1(2) have "res = (h, l)" by auto
    then show ?thesis by (simp add: processingFrame_refl)
  next
    case (Some a)
    obtain h1 l1 where s: "processCapturedUpdate h w q p i r a l = (h1, l1)"
      by (cases "processCapturedUpdate h w q p i r a l")
    with 1(2) Some have "step h1 w q p i r (nextUpdate (updates h1 a)) l1 = Some res"
      by simp
    then have "processingFrame w q h1 (fst res)" by (rule 1(1))
    with processCapturedUpdate_frame [OF s] show ?thesis by (rule processingFrame_trans)
  qed
qed

lemma processUpdateQueue_frame:
  assumes ens: "ensureWorkInProgressQueueIsAClone (h\<lparr>hasForceUpdate := False\<rparr>) w q0 = (h1, q)"
    and run: "processUpdateQueue h w q0 p i r = Some h'"
  shows "passFrame w q h1 h'"
proof -
  define l0 where "l0 = \<lparr>newBaseState = baseState (queues h1 q), newFirstUpdate = None,
     newFirstCapturedUpdate = None, newExpirationTime = NoWork,
     resultState = baseState (queues h1 q)\<rparr>"
  from run obtain h2 l1 where
    a: "processUpdates h1 w q p i r (firstUpdate (queues h1 q)) l0 = Some (h2, l1)"
    by (auto simp: processUpdateQueue_def ens l0_def [symmetric] split: option.splits)
  from run a obtain h3 l2 where
    b: "processCapturedUpdates h2 w q p i r (firstCapturedUpdate (queues h2 q)) l1 = Some (h3, l2)"
    and c: "h' = finishProcessing h3 w q l2"
    by (auto simp: processUpdateQueue_def ens l0_def [symmetric] split: option.splits)
  have "processingFrame w q h1 h3"
    using processUpdates_frame [OF a] processCapturedUpdates_frame [OF b]
    by (auto intro: processingFrame_trans)
  then show ?thesis unfolding c by (rule finishProcessing_frame)
qed

text \<open>
  Claim C8. The work-in-progress fiber \<open>w\<close> has the alternate \<open>c\<close>, the current fiber,
  another fiber, whose queue is the header \<open>qc\<close> (an allocated header). Whatever queue
  \<open>q\<close> is passed to \<open>processUpdateQueue\<close>, in a store that the pass returns the header
  \<open>qc\<close> is what it was, field by field (base state, the pointers of the list and of the
  captured list, the effect pointers), the fiber \<open>c\<close> is what it was, and when \<open>q\<close> is
  \<open>qc\<close> itself the pass worked on a clone, a new header that is now the queue of \<open>w\<close>.
  Of the update records, which the two sides share, nothing differs but \<open>nextEffect\<close>,
  the link of the effect list that the pass builds from the effect pointers of its own
  header. The pass returns whenever the list and the captured list of \<open>q\<close> end in null.
\<close>

theorem clone_isolation:
  assumes "alternate (fibers h w) = Some c" and "c \<noteq> w"
    and "fiberUpdateQueue (fibers h c) = Some qc" and "qc < newQueue h"
  shows "(\<forall>h'. processUpdateQueue h w q p i r = Some h' \<longrightarrow>
       queues h' qc = queues h qc \<and> fibers h' c = fibers h c \<and> sameRecords h h' \<and>
       (q = qc \<longrightarrow> fiberUpdateQueue (fibers h' w) = Some (newQueue h) \<and> newQueue h \<noteq> qc)) \<and>
     (\<forall>xs ys. updateList h (firstUpdate (queues h q)) xs \<and>
        updateList h (firstCapturedUpdate (queues h q)) ys \<longrightarrow>
        processUpdateQueue h w q p i r \<noteq> None)"
proof (intro conjI allI impI)
  fix h' assume run: "processUpdateQueue h w q p i r = Some h'"
  obtain h1 q1 where ens:
    "ensureWorkInProgressQueueIsAClone (h\<lparr>hasForceUpdate := False\<rparr>) w q = (h1, q1)"
    by (cases "ensureWorkInProgressQueueIsAClone (h\<lparr>hasForceUpdate := False\<rparr>) w q")
  have fr: "passFrame w q1 h1 h'" using ens run by (rule processUpdateQueue_frame)
  have e: "q1 \<noteq> qc \<and> queues h1 qc = queues h qc \<and> fibers h1 c = fibers h c \<and>
      updates h1 = updates h \<and> (q = qc \<longrightarrow> q1 = newQueue h \<and> fiberUpdateQueue (fibers h1 w) = Some q1)"
    using ens assms
    by (auto simp: ensureWorkInProgressQueueIsAClone_def cloneUpdateQueue_def writeFiber_def
        Let_def split: if_splits)
  show "queues h' qc = queues h qc" using fr e by (simp add: passFrame_def)
  show "fibers h' c = fibers h c" using fr e assms(2) by (simp add: passFrame_def)
  show "sameRecords h h'" using passFrame_sameRecords [OF fr] e by (simp add: sameRecords_def)
  show "fiberUpdateQueue (fibers h' w) = Some (newQueue h)" if "q = qc"
    using that fr e by (auto simp: passFrame_def)
  show "newQueue h \<noteq> qc" if "q = qc"
    using assms(4) by simp
next
  fix xs ys
  assume l: "updateList h (firstUpdate (queues h q)) xs \<and>
    updateList h (firstCapturedUpdate (queues h q)) ys"
  obtain h1 q1 where ens:
    "ensureWorkInProgressQueueIsAClone (h\<lparr>hasForceUpdate := False\<rparr>) w q = (h1, q1)"
    by (cases "ensureWorkInProgressQueueIsAClone (h\<lparr>hasForceUpdate := False\<rparr>) w q")
  note e = ensureWorkInProgressQueueIsAClone_queue [OF ens]
  have u1: "updates h1 = updates h" using e(1) by simp
  have xs1: "updateList h1 (firstUpdate (queues h1 q1)) xs"
    using l by (simp add: e(3) updateList_def u1)
  have "\<exists>ys'. updateList h1 (firstCapturedUpdate (queues h1 q1)) ys'"
    using ensureWorkInProgressQueueIsAClone_cases [OF ens]
  proof
    assume "h1 = h\<lparr>hasForceUpdate := False\<rparr> \<and> q1 = q"
    with l have "updateList h1 (firstCapturedUpdate (queues h1 q1)) ys"
      by (simp add: updateList_def)
    then show ?thesis ..
  next
    assume "q1 = newQueue (h\<lparr>hasForceUpdate := False\<rparr>) \<and>
      h1 = writeFiber (fst (cloneUpdateQueue (h\<lparr>hasForceUpdate := False\<rparr>) q)) w
             (\<lambda>f. f\<lparr>fiberUpdateQueue := Some q1\<rparr>)"
    then have "firstCapturedUpdate (queues h1 q1) = None"
      by (simp add: cloneUpdateQueue_def writeFiber_def Let_def)
    then have "updateList h1 (firstCapturedUpdate (queues h1 q1)) []"
      by (simp add: updateList_def)
    then show ?thesis ..
  qed
  then obtain ys' where ys1: "updateList h1 (firstCapturedUpdate (queues h1 q1)) ys'" ..
  from processUpdateQueue_lists [OF ens xs1 ys1, of p i r]
  show "processUpdateQueue h w q p i r \<noteq> None" by auto
qed

text \<open>
  Fiber 1 is processed with the queue it shares with the current fiber 0 (header 0): the
  pass clones the header (header 2), computes \<open>"AB"\<close> and puts the effects on header 2;
  header 0 and fiber 0 are as before.
\<close>

theorem clone_isolation_witness:
  "\<exists>h'. processUpdateQueue workInProgressStore 1 0 JNull JNull 1 = Some h' \<and>
     fiberUpdateQueue (fibers workInProgressStore 0) = Some 0 \<and>
     fiberUpdateQueue (fibers workInProgressStore 1) = Some 0 \<and>
     queues h' 0 = queues workInProgressStore 0 \<and>
     fibers h' 0 = fibers workInProgressStore 0 \<and>
     fiberUpdateQueue (fibers h' 1) = Some 2 \<and>
     memoizedState (fibers h' 1) = JStr ''AB'' \<and>
     firstEffect (queues h' 2) = Some 0 \<and> firstEffect (queues h' 0) = None"
proof -
  define H where "H = the (processUpdateQueue workInProgressStore 1 0 JNull JNull 1)"
  note ev = workInProgressStore_def pairStore_def store_simps run_simps
  have 1: "alternate (fibers workInProgressStore 1) = Some 0" "(0::nat) \<noteq> 1"
    "fiberUpdateQueue (fibers workInProgressStore 0) = Some 0" "0 < newQueue workInProgressStore"
    by (simp_all add: ev)
  have 2: "newQueue workInProgressStore = 2" "fiberUpdateQueue (fibers workInProgressStore 1) = Some 0"
    by (simp_all add: ev)
  have run: "processUpdateQueue workInProgressStore 1 0 JNull JNull 1 = Some H"
    unfolding H_def by (simp add: ev)
  have 3: "memoizedState (fibers H 1) = JStr ''AB''" "firstEffect (queues H 2) = Some 0"
    "firstEffect (queues H 0) = None"
    unfolding H_def by (simp_all add: ev)
  from clone_isolation [OF 1, of 0 JNull JNull 1] run
  have "queues H 0 = queues workInProgressStore 0 \<and> fibers H 0 = fibers workInProgressStore 0 \<and>
    fiberUpdateQueue (fibers H 1) = Some 2"
    by (simp add: 2)
  with run 1(3) 2(2) 3 show ?thesis by blast
qed

subsection \<open>No update is lost\<close>

lemma linked_snoc:
  assumes "linked nxt p xs" and "xs \<noteq> []" and "u \<notin> set xs" and "nxt u = None"
  shows "linked (nxt(last xs := Some u)) p (xs @ [u])"
proof -
  have "linked nxt (Some u) [u]" using assms(4) by simp
  moreover have "last xs \<notin> set [u]" using assms(2,3) by auto
  ultimately show ?thesis using assms(1,2) by (intro linked_join)
qed

lemma linked_upd_other:
  assumes "linked nxt p ys" and "l \<notin> set ys"
  shows "linked (nxt(l := v)) p ys"
proof -
  have "linked (nxt(l := v)) p ys = linked nxt p ys"
    using assms(2) by (intro linked_cong) auto
  with assms(1) show ?thesis by simp
qed

lemma appendUpdateToQueue_next:
  "(\<lambda>a. nextUpdate (updates (appendUpdateToQueue h q u) a)) =
     (case lastUpdate (queues h q) of
        None \<Rightarrow> (\<lambda>a. nextUpdate (updates h a))
      | Some l \<Rightarrow> (\<lambda>a. nextUpdate (updates h a))(l := Some u))"
  by (auto simp: appendUpdateToQueue_def writeQueue_def writeUpdate_def fun_eq_iff
      split: option.splits)

lemma appendUpdateToQueue_queue:
  "queues (appendUpdateToQueue h q u) q =
     (queues h q)\<lparr>firstUpdate := (if lastUpdate (queues h q) = None then Some u
                                    else firstUpdate (queues h q)),
                   lastUpdate := Some u\<rparr>"
  "q' \<noteq> q \<Longrightarrow> queues (appendUpdateToQueue h q u) q' = queues h q'"
  by (auto simp: appendUpdateToQueue_def writeQueue_def writeUpdate_def split: option.splits)

lemma appendUpdateToQueue_own:
  assumes "queueList h q xs" and "u \<notin> set xs" and "nextUpdate (updates h u) = None"
  shows "queueList (appendUpdateToQueue h q u) q (xs @ [u])"
proof (cases "xs = []")
  case True
  with assms show ?thesis
    by (simp add: queueList_def updateList_def appendUpdateToQueue_next
        appendUpdateToQueue_queue)
next
  case False
  with assms(1) have l: "lastUpdate (queues h q) = Some (last xs)"
    and x: "linked (\<lambda>a. nextUpdate (updates h a)) (firstUpdate (queues h q)) xs"
    by (simp_all add: queueList_def updateList_def)
  from linked_snoc [OF x False assms(2,3)] False show ?thesis
    by (simp add: queueList_def updateList_def appendUpdateToQueue_next
        appendUpdateToQueue_queue l)
qed

lemma appendUpdateToQueue_other:
  assumes "queueList h q' ys" and "q' \<noteq> q"
    and "\<forall>l. lastUpdate (queues h q) = Some l \<longrightarrow> l \<notin> set ys"
  shows "queueList (appendUpdateToQueue h q u) q' ys"
proof (cases "lastUpdate (queues h q)")
  case None
  with assms show ?thesis
    by (simp add: queueList_def updateList_def appendUpdateToQueue_next
        appendUpdateToQueue_queue)
next
  case (Some l)
  with assms(3) have "l \<notin> set ys" by simp
  with assms(1) have "linked ((\<lambda>a. nextUpdate (updates h a))(l := Some u))
      (firstUpdate (queues h q')) ys"
    by (intro linked_upd_other) (simp add: queueList_def updateList_def)
  with assms Some show ?thesis
    by (simp add: queueList_def updateList_def appendUpdateToQueue_next
        appendUpdateToQueue_queue)
qed

lemma appendUpdateToQueue_shared:
  assumes "queueList h q' ys" and "q' \<noteq> q" and "ys \<noteq> []"
    and "lastUpdate (queues h q) = Some (last ys)"
    and "u \<notin> set ys" and "nextUpdate (updates h u) = None"
  shows "queueList (writeQueue (appendUpdateToQueue h q u) q' (\<lambda>r. r\<lparr>lastUpdate := Some u\<rparr>))
     q' (ys @ [u])"
proof -
  from assms(1) have y: "linked (\<lambda>a. nextUpdate (updates h a)) (firstUpdate (queues h q')) ys"
    by (simp add: queueList_def updateList_def)
  from linked_snoc [OF y assms(3,5,6)] assms(2,3,4) show ?thesis
    by (simp add: queueList_def updateList_def writeQueue_def appendUpdateToQueue_next
        appendUpdateToQueue_queue)
qed

lemma enqueueFrame_refl: "enqueueFrame h h"
  by (simp add: enqueueFrame_def)

lemma enqueueFrame_trans: "enqueueFrame h1 h2 \<Longrightarrow> enqueueFrame h2 h3 \<Longrightarrow> enqueueFrame h1 h3"
  by (simp add: enqueueFrame_def)

lemma appendUpdateToQueue_frame: "enqueueFrame h (appendUpdateToQueue h q u)"
  by (simp add: enqueueFrame_def appendUpdateToQueue_def writeQueue_def writeUpdate_def
      split: option.splits)

lemma writeQueue_lastUpdate_frame:
  "enqueueFrame h (writeQueue h q (\<lambda>r. r\<lparr>lastUpdate := v\<rparr>))"
  by (simp add: enqueueFrame_def writeQueue_def)

lemma queueList_writeQueue_other:
  "queueList h q xs \<Longrightarrow> q' \<noteq> q \<Longrightarrow> queueList (writeQueue h q' f) q xs"
  by (simp add: queueList_def updateList_def writeQueue_def)

lemma queueList_last:
  "queueList h q xs \<Longrightarrow> lastUpdate (queues h q) = None \<longleftrightarrow> xs = []"
  by (simp add: queueList_def)

text \<open>The second half of enqueueUpdate on two different queues.\<close>

lemma enqueue_two_lists:
  assumes l1: "queueList h q1 xs1" and l2: "queueList h q2 xs2" and ne: "q1 \<noteq> q2"
    and compat: "xs1 \<noteq> [] \<and> xs2 \<noteq> [] \<longrightarrow> last xs1 = last xs2"
    and u1: "u \<notin> set xs1" and u2: "u \<notin> set xs2" and un: "nextUpdate (updates h u) = None"
  defines "h' \<equiv>
    (if lastUpdate (queues h q1) = None \<or> lastUpdate (queues h q2) = None
     then appendUpdateToQueue (appendUpdateToQueue h q1 u) q2 u
     else writeQueue (appendUpdateToQueue h q1 u) q2 (\<lambda>q. q\<lparr>lastUpdate := Some u\<rparr>))"
  shows "queueList h' q1 (xs1 @ [u]) \<and> queueList h' q2 (xs2 @ [u]) \<and> enqueueFrame h h'"
proof -
  define h1 where "h1 = appendUpdateToQueue h q1 u"
  have a1: "queueList h1 q1 (xs1 @ [u])"
    unfolding h1_def using l1 u1 un by (rule appendUpdateToQueue_own)
  have f1: "enqueueFrame h h1" unfolding h1_def by (rule appendUpdateToQueue_frame)
  show ?thesis
  proof (cases "xs1 = [] \<or> xs2 = []")
    case True
    then have h': "h' = appendUpdateToQueue h1 q2 u"
      using queueList_last [OF l1] queueList_last [OF l2] by (auto simp: h'_def h1_def)
    have o2: "queueList h1 q2 xs2"
      unfolding h1_def using l2 ne True l1
      by (intro appendUpdateToQueue_other) (auto simp: queueList_def)
    have un1: "nextUpdate (updates h1 u) = None"
      using un l1 u1 fun_cong [OF appendUpdateToQueue_next [of h q1 u], of u]
      by (auto simp: h1_def queueList_def split: option.splits if_splits)
    have b2: "queueList h' q2 (xs2 @ [u])"
      unfolding h' using o2 u2 un1 by (rule appendUpdateToQueue_own)
    have "lastUpdate (queues h1 q2) = lastUpdate (queues h q2)"
      using ne by (simp add: h1_def appendUpdateToQueue_queue)
    then have "\<forall>l. lastUpdate (queues h1 q2) = Some l \<longrightarrow> l \<notin> set (xs1 @ [u])"
      using True l2 u2 l1 compat by (auto simp: queueList_def split: if_splits)
    with a1 have b1: "queueList h' q1 (xs1 @ [u])"
      unfolding h' using ne by (intro appendUpdateToQueue_other) auto
    have "enqueueFrame h1 h'" unfolding h' by (rule appendUpdateToQueue_frame)
    with f1 have "enqueueFrame h h'" by (rule enqueueFrame_trans)
    with b1 b2 show ?thesis by simp
  next
    case False
    then have h': "h' = writeQueue h1 q2 (\<lambda>q. q\<lparr>lastUpdate := Some u\<rparr>)"
      using queueList_last [OF l1] queueList_last [OF l2] by (auto simp: h'_def h1_def)
    have "lastUpdate (queues h q1) = Some (last xs2)"
      using False l1 compat by (simp add: queueList_def)
    with l2 ne have b2: "queueList h' q2 (xs2 @ [u])"
      unfolding h' h1_def using False u2 un by (intro appendUpdateToQueue_shared) auto
    have b1: "queueList h' q1 (xs1 @ [u])"
      unfolding h' using a1 ne by (intro queueList_writeQueue_other) auto
    have "enqueueFrame h1 h'" unfolding h' by (rule writeQueue_lastUpdate_frame)
    with f1 have "enqueueFrame h h'" by (rule enqueueFrame_trans)
    with b1 b2 show ?thesis by simp
  qed
qed

lemma queueList_unique: "queueList h q xs \<Longrightarrow> queueList h q ys \<Longrightarrow> xs = ys"
  unfolding queueList_def updateList_def by (blast dest: linked_unique)

lemma queueList_cong:
  assumes "queueList h q xs"
    and "firstUpdate (queues h' q') = firstUpdate (queues h q)"
    and "lastUpdate (queues h' q') = lastUpdate (queues h q)"
    and "\<And>a. a \<in> set xs \<Longrightarrow> nextUpdate (updates h' a) = nextUpdate (updates h a)"
  shows "queueList h' q' xs"
proof -
  have "linked (\<lambda>a. nextUpdate (updates h' a)) (firstUpdate (queues h q)) xs =
        linked (\<lambda>a. nextUpdate (updates h a)) (firstUpdate (queues h q)) xs"
    by (rule linked_cong) (simp add: assms(4))
  with assms(1-3) show ?thesis by (simp add: queueList_def updateList_def)
qed

lemma queueList_empty:
  "firstUpdate (queues h q) = None \<Longrightarrow> lastUpdate (queues h q) = None \<Longrightarrow> queueList h q []"
  by (simp add: queueList_def updateList_def)

text \<open>The second half of enqueueUpdate, on two queues that may be the same.\<close>

lemma enqueue_both_lists:
  assumes l1: "queueList h q1 xs1" and l2: "queueList h q2 xs2"
    and compat: "xs1 \<noteq> [] \<and> xs2 \<noteq> [] \<longrightarrow> last xs1 = last xs2"
    and u1: "u \<notin> set xs1" and u2: "u \<notin> set xs2" and un: "nextUpdate (updates h u) = None"
  defines "h' \<equiv>
    (if q1 = q2 then appendUpdateToQueue h q1 u
     else if lastUpdate (queues h q1) = None \<or> lastUpdate (queues h q2) = None
     then appendUpdateToQueue (appendUpdateToQueue h q1 u) q2 u
     else writeQueue (appendUpdateToQueue h q1 u) q2 (\<lambda>q. q\<lparr>lastUpdate := Some u\<rparr>))"
  shows "queueList h' q1 (xs1 @ [u]) \<and> queueList h' q2 (xs2 @ [u]) \<and> enqueueFrame h h'"
proof (cases "q1 = q2")
  case True
  with l1 l2 have "xs1 = xs2" by (auto dest: queueList_unique)
  with True show ?thesis
    using appendUpdateToQueue_own [OF l1 u1 un] appendUpdateToQueue_frame [of h q1 u]
    by (simp add: h'_def)
next
  case False
  with enqueue_two_lists [OF l1 l2 False compat u1 u2 un] show ?thesis
    by (simp add: h'_def)
qed

lemma enqueueUpdate_queues_pair:
  assumes alt: "alternate (fibers h f) = Some g" and ne: "g \<noteq> f"
    and bound: "\<forall>q. fiberUpdateQueue (fibers h f) = Some q \<or>
                    fiberUpdateQueue (fibers h g) = Some q \<longrightarrow> q < newQueue h"
  shows "\<exists>h1 q1 q2. enqueueUpdate_queues h f = (h1, q1, Some q2) \<and>
     updates h1 = updates h \<and> newUpdate h1 = newUpdate h \<and>
     fiberUpdateQueue (fibers h1 f) = Some q1 \<and> fiberUpdateQueue (fibers h1 g) = Some q2 \<and>
     q1 < newQueue h1 \<and> q2 < newQueue h1 \<and>
     (\<forall>x. alternate (fibers h1 x) = alternate (fibers h x) \<and>
          memoizedState (fibers h1 x) = memoizedState (fibers h x)) \<and>
     (\<forall>q. fiberUpdateQueue (fibers h f) = Some q \<longrightarrow> q1 = q \<and> queues h1 q = queues h q) \<and>
     (\<forall>q. fiberUpdateQueue (fibers h g) = Some q \<longrightarrow> q2 = q \<and> queues h1 q = queues h q) \<and>
     (fiberUpdateQueue (fibers h f) = None \<longrightarrow>
        q1 \<noteq> q2 \<and> firstCapturedUpdate (queues h1 q1) = None \<and>
        (case fiberUpdateQueue (fibers h g) of
           None \<Rightarrow> baseState (queues h1 q1) = memoizedState (fibers h f) \<and>
                   firstUpdate (queues h1 q1) = None \<and> lastUpdate (queues h1 q1) = None
         | Some q \<Rightarrow> baseState (queues h1 q1) = baseState (queues h q) \<and>
                   firstUpdate (queues h1 q1) = firstUpdate (queues h q) \<and>
                   lastUpdate (queues h1 q1) = lastUpdate (queues h q))) \<and>
     (fiberUpdateQueue (fibers h g) = None \<longrightarrow>
        q1 \<noteq> q2 \<and> firstCapturedUpdate (queues h1 q2) = None \<and>
        (case fiberUpdateQueue (fibers h f) of
           None \<Rightarrow> baseState (queues h1 q2) = memoizedState (fibers h g) \<and>
                   firstUpdate (queues h1 q2) = None \<and> lastUpdate (queues h1 q2) = None
         | Some q \<Rightarrow> baseState (queues h1 q2) = baseState (queues h q) \<and>
                   firstUpdate (queues h1 q2) = firstUpdate (queues h q) \<and>
                   lastUpdate (queues h1 q2) = lastUpdate (queues h q)))"
proof (cases "fiberUpdateQueue (fibers h f)")
  case None
  note nf = this
  show ?thesis
  proof (cases "fiberUpdateQueue (fibers h g)")
    case None
    with nf alt ne show ?thesis
      by (simp add: enqueueUpdate_queues_def createUpdateQueue_def writeFiber_def Let_def)
  next
    case (Some q)
    with nf alt ne bound show ?thesis
      by (simp add: enqueueUpdate_queues_def cloneUpdateQueue_def writeFiber_def Let_def)
  qed
next
  case (Some q)
  note sf = this
  show ?thesis
  proof (cases "fiberUpdateQueue (fibers h g)")
    case None
    with sf alt ne bound show ?thesis
      by (simp add: enqueueUpdate_queues_def cloneUpdateQueue_def writeFiber_def Let_def)
  next
    case (Some q')
    with sf alt ne bound show ?thesis
      by (simp add: enqueueUpdate_queues_def)
  qed
qed

lemma enqueueUpdate_pair:
  assumes alt: "alternate (fibers h f) = Some g" and ne: "g \<noteq> f"
    and bound: "\<forall>q. fiberUpdateQueue (fibers h f) = Some q \<or>
                    fiberUpdateQueue (fibers h g) = Some q \<longrightarrow> q < newQueue h"
    and lf: "\<forall>q. fiberUpdateQueue (fibers h f) = Some q \<longrightarrow> queueList h q xs"
    and lg: "\<forall>q. fiberUpdateQueue (fibers h g) = Some q \<longrightarrow> queueList h q ys"
    and nf: "fiberUpdateQueue (fibers h f) = None \<longrightarrow>
               (case fiberUpdateQueue (fibers h g) of None \<Rightarrow> xs = [] | Some q \<Rightarrow> xs = ys)"
    and ng: "fiberUpdateQueue (fibers h g) = None \<longrightarrow>
               (case fiberUpdateQueue (fibers h f) of None \<Rightarrow> ys = [] | Some q \<Rightarrow> ys = xs)"
    and compat: "xs \<noteq> [] \<and> ys \<noteq> [] \<longrightarrow> last xs = last ys"
    and u1: "u \<notin> set xs" and u2: "u \<notin> set ys" and un: "nextUpdate (updates h u) = None"
  shows "\<exists>q1 q2.
     fiberUpdateQueue (fibers (enqueueUpdate h f u) f) = Some q1 \<and>
     fiberUpdateQueue (fibers (enqueueUpdate h f u) g) = Some q2 \<and>
     q1 < newQueue (enqueueUpdate h f u) \<and> q2 < newQueue (enqueueUpdate h f u) \<and>
     queueList (enqueueUpdate h f u) q1 (xs @ [u]) \<and>
     queueList (enqueueUpdate h f u) q2 (ys @ [u]) \<and>
     (\<forall>x. alternate (fibers (enqueueUpdate h f u) x) = alternate (fibers h x) \<and>
          memoizedState (fibers (enqueueUpdate h f u) x) = memoizedState (fibers h x)) \<and>
     newUpdate (enqueueUpdate h f u) = newUpdate h \<and>
     (\<forall>a. tag (updates (enqueueUpdate h f u) a) = tag (updates h a) \<and>
          payload (updates (enqueueUpdate h f u) a) = payload (updates h a)) \<and>
     (case fiberUpdateQueue (fibers h f) of
        Some q \<Rightarrow> q1 = q \<and>
          baseState (queues (enqueueUpdate h f u) q1) = baseState (queues h q) \<and>
          firstCapturedUpdate (queues (enqueueUpdate h f u) q1) =
            firstCapturedUpdate (queues h q)
      | None \<Rightarrow> q1 \<noteq> q2 \<and>
          firstCapturedUpdate (queues (enqueueUpdate h f u) q1) = None \<and>
          baseState (queues (enqueueUpdate h f u) q1) =
            (case fiberUpdateQueue (fibers h g) of
               None \<Rightarrow> memoizedState (fibers h f)
             | Some q \<Rightarrow> baseState (queues h q))) \<and>
     (case fiberUpdateQueue (fibers h g) of
        Some q \<Rightarrow> q2 = q \<and>
          baseState (queues (enqueueUpdate h f u) q2) = baseState (queues h q) \<and>
          firstCapturedUpdate (queues (enqueueUpdate h f u) q2) =
            firstCapturedUpdate (queues h q)
      | None \<Rightarrow> q1 \<noteq> q2 \<and>
          firstCapturedUpdate (queues (enqueueUpdate h f u) q2) = None \<and>
          baseState (queues (enqueueUpdate h f u) q2) =
            (case fiberUpdateQueue (fibers h f) of
               None \<Rightarrow> memoizedState (fibers h g)
             | Some q \<Rightarrow> baseState (queues h q)))"
proof -
  from enqueueUpdate_queues_pair [OF alt ne bound] obtain h1 q1 q2 where
    eq: "enqueueUpdate_queues h f = (h1, q1, Some q2)"
    and up: "updates h1 = updates h" and nu: "newUpdate h1 = newUpdate h"
    and f1: "fiberUpdateQueue (fibers h1 f) = Some q1"
    and g1: "fiberUpdateQueue (fibers h1 g) = Some q2"
    and b1: "q1 < newQueue h1" and b2: "q2 < newQueue h1"
    and fib: "\<forall>x. alternate (fibers h1 x) = alternate (fibers h x) \<and>
          memoizedState (fibers h1 x) = memoizedState (fibers h x)"
    and sf: "\<forall>q. fiberUpdateQueue (fibers h f) = Some q \<longrightarrow> q1 = q \<and> queues h1 q = queues h q"
    and sg: "\<forall>q. fiberUpdateQueue (fibers h g) = Some q \<longrightarrow> q2 = q \<and> queues h1 q = queues h q"
    and cf: "fiberUpdateQueue (fibers h f) = None \<longrightarrow>
        q1 \<noteq> q2 \<and> firstCapturedUpdate (queues h1 q1) = None \<and>
        (case fiberUpdateQueue (fibers h g) of
           None \<Rightarrow> baseState (queues h1 q1) = memoizedState (fibers h f) \<and>
                   firstUpdate (queues h1 q1) = None \<and> lastUpdate (queues h1 q1) = None
         | Some q \<Rightarrow> baseState (queues h1 q1) = baseState (queues h q) \<and>
                   firstUpdate (queues h1 q1) = firstUpdate (queues h q) \<and>
                   lastUpdate (queues h1 q1) = lastUpdate (queues h q))"
    and cg: "fiberUpdateQueue (fibers h g) = None \<longrightarrow>
        q1 \<noteq> q2 \<and> firstCapturedUpdate (queues h1 q2) = None \<and>
        (case fiberUpdateQueue (fibers h f) of
           None \<Rightarrow> baseState (queues h1 q2) = memoizedState (fibers h g) \<and>
                   firstUpdate (queues h1 q2) = None \<and> lastUpdate (queues h1 q2) = None
         | Some q \<Rightarrow> baseState (queues h1 q2) = baseState (queues h q) \<and>
                   firstUpdate (queues h1 q2) = firstUpdate (queues h q) \<and>
                   lastUpdate (queues h1 q2) = lastUpdate (queues h q))"
    by (elim exE conjE) (rule that)
  define h' where "h' = enqueueUpdate h f u"
  have h': "h' =
    (if q1 = q2 then appendUpdateToQueue h1 q1 u
     else if lastUpdate (queues h1 q1) = None \<or> lastUpdate (queues h1 q2) = None
     then appendUpdateToQueue (appendUpdateToQueue h1 q1 u) q2 u
     else writeQueue (appendUpdateToQueue h1 q1 u) q2 (\<lambda>q. q\<lparr>lastUpdate := Some u\<rparr>))"
    by (simp add: h'_def enqueueUpdate_def eq)
  have L1: "queueList h1 q1 xs"
  proof (cases "fiberUpdateQueue (fibers h f)")
    case (Some q)
    with sf lf have "q1 = q" "queues h1 q = queues h q" "queueList h q xs" by auto
    then show ?thesis by (auto intro: queueList_cong simp: up)
  next
    case None
    note n = this
    show ?thesis
    proof (cases "fiberUpdateQueue (fibers h g)")
      case None
      with n cf nf show ?thesis by (simp add: queueList_empty)
    next
      case (Some q)
      with n cf nf lg have "queueList h q xs"
        "firstUpdate (queues h1 q1) = firstUpdate (queues h q)"
        "lastUpdate (queues h1 q1) = lastUpdate (queues h q)" by auto
      then show ?thesis by (rule queueList_cong) (simp add: up)
    qed
  qed
  have L2: "queueList h1 q2 ys"
  proof (cases "fiberUpdateQueue (fibers h g)")
    case (Some q)
    with sg lg have "q2 = q" "queues h1 q = queues h q" "queueList h q ys" by auto
    then show ?thesis by (auto intro: queueList_cong simp: up)
  next
    case None
    note n = this
    show ?thesis
    proof (cases "fiberUpdateQueue (fibers h f)")
      case None
      with n cg ng show ?thesis by (simp add: queueList_empty)
    next
      case (Some q)
      with n cg ng lf have "queueList h q ys"
        "firstUpdate (queues h1 q2) = firstUpdate (queues h q)"
        "lastUpdate (queues h1 q2) = lastUpdate (queues h q)" by auto
      then show ?thesis by (rule queueList_cong) (simp add: up)
    qed
  qed
  have un1: "nextUpdate (updates h1 u) = None" using un by (simp add: up)
  from enqueue_both_lists [OF L1 L2 compat u1 u2 un1] have
    R1: "queueList h' q1 (xs @ [u])" and R2: "queueList h' q2 (ys @ [u])"
    and fr: "enqueueFrame h1 h'"
    unfolding h' by simp_all
  from fr have fibs: "fibers h' = fibers h1" and nq: "newQueue h' = newQueue h1"
    and nu': "newUpdate h' = newUpdate h1"
    and recs: "\<forall>a. tag (updates h' a) = tag (updates h1 a) \<and>
          payload (updates h' a) = payload (updates h1 a)"
    and qs: "\<forall>q. baseState (queues h' q) = baseState (queues h1 q) \<and>
          firstCapturedUpdate (queues h' q) = firstCapturedUpdate (queues h1 q)"
    by (simp_all add: enqueueFrame_def)
  have A: "case fiberUpdateQueue (fibers h f) of
        Some q \<Rightarrow> q1 = q \<and>
          baseState (queues h' q1) = baseState (queues h q) \<and>
          firstCapturedUpdate (queues h' q1) = firstCapturedUpdate (queues h q)
      | None \<Rightarrow> q1 \<noteq> q2 \<and>
          firstCapturedUpdate (queues h' q1) = None \<and>
          baseState (queues h' q1) =
            (case fiberUpdateQueue (fibers h g) of
               None \<Rightarrow> memoizedState (fibers h f)
             | Some q \<Rightarrow> baseState (queues h q))"
    using sf cf qs by (auto split: option.splits)
  have B: "case fiberUpdateQueue (fibers h g) of
        Some q \<Rightarrow> q2 = q \<and>
          baseState (queues h' q2) = baseState (queues h q) \<and>
          firstCapturedUpdate (queues h' q2) = firstCapturedUpdate (queues h q)
      | None \<Rightarrow> q1 \<noteq> q2 \<and>
          firstCapturedUpdate (queues h' q2) = None \<and>
          baseState (queues h' q2) =
            (case fiberUpdateQueue (fibers h f) of
               None \<Rightarrow> memoizedState (fibers h g)
             | Some q \<Rightarrow> baseState (queues h q))"
    using sg cg qs by (auto split: option.splits)
  have C: "fiberUpdateQueue (fibers h' f) = Some q1" "fiberUpdateQueue (fibers h' g) = Some q2"
    "q1 < newQueue h'" "q2 < newQueue h'"
    using f1 g1 b1 b2 by (simp_all add: fibs nq)
  have D: "\<forall>x. alternate (fibers h' x) = alternate (fibers h x) \<and>
          memoizedState (fibers h' x) = memoizedState (fibers h x)"
    using fib by (simp add: fibs)
  have E: "newUpdate h' = newUpdate h" using nu nu' by simp
  have F: "\<forall>a. tag (updates h' a) = tag (updates h a) \<and>
          payload (updates h' a) = payload (updates h a)"
    using recs by (simp add: up)
  from C R1 R2 D E F A B show ?thesis
    unfolding h'_def by (intro exI [of _ q1] exI [of _ q2] conjI)
qed

lemma enqueueUpdate_single:
  assumes alt: "alternate (fibers h f) = None"
    and bound: "\<forall>q. fiberUpdateQueue (fibers h f) = Some q \<longrightarrow> q < newQueue h"
    and lf: "\<forall>q. fiberUpdateQueue (fibers h f) = Some q \<longrightarrow> queueList h q xs"
    and nf: "fiberUpdateQueue (fibers h f) = None \<longrightarrow> xs = []"
    and u1: "u \<notin> set xs" and un: "nextUpdate (updates h u) = None"
  shows "\<exists>q1.
     fiberUpdateQueue (fibers (enqueueUpdate h f u) f) = Some q1 \<and>
     q1 < newQueue (enqueueUpdate h f u) \<and>
     queueList (enqueueUpdate h f u) q1 (xs @ [u]) \<and>
     (\<forall>x. alternate (fibers (enqueueUpdate h f u) x) = alternate (fibers h x) \<and>
          memoizedState (fibers (enqueueUpdate h f u) x) = memoizedState (fibers h x)) \<and>
     newUpdate (enqueueUpdate h f u) = newUpdate h \<and>
     (\<forall>a. tag (updates (enqueueUpdate h f u) a) = tag (updates h a) \<and>
          payload (updates (enqueueUpdate h f u) a) = payload (updates h a)) \<and>
     (case fiberUpdateQueue (fibers h f) of
        Some q \<Rightarrow> q1 = q \<and>
          baseState (queues (enqueueUpdate h f u) q1) = baseState (queues h q) \<and>
          firstCapturedUpdate (queues (enqueueUpdate h f u) q1) =
            firstCapturedUpdate (queues h q)
      | None \<Rightarrow>
          firstCapturedUpdate (queues (enqueueUpdate h f u) q1) = None \<and>
          baseState (queues (enqueueUpdate h f u) q1) = memoizedState (fibers h f))"
proof -
  have "\<exists>h1 q1. enqueueUpdate_queues h f = (h1, q1, None) \<and>
     updates h1 = updates h \<and> newUpdate h1 = newUpdate h \<and>
     fiberUpdateQueue (fibers h1 f) = Some q1 \<and> q1 < newQueue h1 \<and>
     (\<forall>x. alternate (fibers h1 x) = alternate (fibers h x) \<and>
          memoizedState (fibers h1 x) = memoizedState (fibers h x)) \<and>
     (case fiberUpdateQueue (fibers h f) of
        Some q \<Rightarrow> q1 = q \<and> queues h1 q = queues h q
      | None \<Rightarrow> firstCapturedUpdate (queues h1 q1) = None \<and>
          baseState (queues h1 q1) = memoizedState (fibers h f) \<and>
          firstUpdate (queues h1 q1) = None \<and> lastUpdate (queues h1 q1) = None)"
    using alt bound
    by (cases "fiberUpdateQueue (fibers h f)")
       (simp_all add: enqueueUpdate_queues_def createUpdateQueue_def writeFiber_def Let_def)
  then obtain h1 q1 where
    eq: "enqueueUpdate_queues h f = (h1, q1, None)"
    and up: "updates h1 = updates h" and nu: "newUpdate h1 = newUpdate h"
    and f1: "fiberUpdateQueue (fibers h1 f) = Some q1" and b1: "q1 < newQueue h1"
    and fib: "\<forall>x. alternate (fibers h1 x) = alternate (fibers h x) \<and>
          memoizedState (fibers h1 x) = memoizedState (fibers h x)"
    and c: "case fiberUpdateQueue (fibers h f) of
        Some q \<Rightarrow> q1 = q \<and> queues h1 q = queues h q
      | None \<Rightarrow> firstCapturedUpdate (queues h1 q1) = None \<and>
          baseState (queues h1 q1) = memoizedState (fibers h f) \<and>
          firstUpdate (queues h1 q1) = None \<and> lastUpdate (queues h1 q1) = None"
    by (elim exE conjE) (rule that)
  define h' where "h' = enqueueUpdate h f u"
  have h': "h' = appendUpdateToQueue h1 q1 u"
    by (simp add: h'_def enqueueUpdate_def eq)
  have L1: "queueList h1 q1 xs"
  proof (cases "fiberUpdateQueue (fibers h f)")
    case (Some q)
    with c lf have "q1 = q" "queues h1 q = queues h q" "queueList h q xs" by auto
    then show ?thesis by (auto intro: queueList_cong simp: up)
  next
    case None
    with c nf show ?thesis by (simp add: queueList_empty)
  qed
  have un1: "nextUpdate (updates h1 u) = None" using un by (simp add: up)
  have R1: "queueList h' q1 (xs @ [u])"
    unfolding h' using L1 u1 un1 by (rule appendUpdateToQueue_own)
  have fr: "enqueueFrame h1 h'" unfolding h' by (rule appendUpdateToQueue_frame)
  from fr have fibs: "fibers h' = fibers h1" and nq: "newQueue h' = newQueue h1"
    and nu': "newUpdate h' = newUpdate h1"
    and recs: "\<forall>a. tag (updates h' a) = tag (updates h1 a) \<and>
          payload (updates h' a) = payload (updates h1 a)"
    and qs: "\<forall>q. baseState (queues h' q) = baseState (queues h1 q) \<and>
          firstCapturedUpdate (queues h' q) = firstCapturedUpdate (queues h1 q)"
    by (simp_all add: enqueueFrame_def)
  have A: "case fiberUpdateQueue (fibers h f) of
        Some q \<Rightarrow> q1 = q \<and>
          baseState (queues h' q1) = baseState (queues h q) \<and>
          firstCapturedUpdate (queues h' q1) = firstCapturedUpdate (queues h q)
      | None \<Rightarrow>
          firstCapturedUpdate (queues h' q1) = None \<and>
          baseState (queues h' q1) = memoizedState (fibers h f)"
    using c qs by (auto split: option.splits)
  have C: "fiberUpdateQueue (fibers h' f) = Some q1" "q1 < newQueue h'"
    using f1 b1 by (simp_all add: fibs nq)
  have D: "\<forall>x. alternate (fibers h' x) = alternate (fibers h x) \<and>
          memoizedState (fibers h' x) = memoizedState (fibers h x)"
    using fib by (simp add: fibs)
  have E: "newUpdate h' = newUpdate h" using nu nu' by simp
  have F: "\<forall>a. tag (updates h' a) = tag (updates h a) \<and>
          payload (updates h' a) = payload (updates h a)"
    using recs by (simp add: up)
  from C R1 D E F A show ?thesis
    unfolding h'_def by (intro exI [of _ q1] conjI)
qed

lemma applyEach_Nil: "applyEach h s [] = s"
  by (simp add: applyEach_def)

lemma applyEach_append:
  "applyEach h s (as @ bs) = applyEach h (applyEach h s as) bs"
  by (simp add: applyEach_def)

lemma applyEach_map:
  "applyEach h s (map (\<lambda>u. (u, p, i)) us) = applyUpdates h p i s us"
  by (induction us arbitrary: s) (simp_all add: applyEach_def applyUpdates_def)

lemma applyEach_cong:
  assumes "\<And>x. x \<in> set (map fst tr) \<Longrightarrow>
     tag (updates h' x) = tag (updates h x) \<and> payload (updates h' x) = payload (updates h x)"
  shows "applyEach h' s tr = applyEach h s tr"
  using assms
proof (induction tr arbitrary: s)
  case Nil
  show ?case by (simp add: applyEach_def)
next
  case (Cons a tr)
  obtain u p i where a: "a = (u, p, i)" by (cases a)
  have "stateFromUpdate (updates h' u) = stateFromUpdate (updates h u)"
    using Cons.prems [of u] by (intro stateFromUpdate_fields) (simp_all add: a)
  moreover have "applyEach h' (stateFromUpdate (updates h u) s p i) tr =
      applyEach h (stateFromUpdate (updates h u) s p i) tr"
    by (rule Cons.IH) (simp add: Cons.prems)
  ultimately show ?case by (simp add: applyEach_def a)
qed

lemma sorted_wrt_filter_append:
  "sorted_wrt (<) (xs @ ys) \<Longrightarrow> sorted_wrt (<) (xs @ filter P (ys :: nat list))"
  by (auto simp: sorted_wrt_append intro: sorted_wrt_filter)

lemma enqueueUpdate_either:
  assumes tgt: "target = w \<or> target = a"
    and alt: "alternate (fibers h w) = Some a" "alternate (fibers h a) = Some w" and ne: "a \<noteq> w"
    and bound: "\<forall>q. fiberUpdateQueue (fibers h w) = Some q \<or>
                    fiberUpdateQueue (fibers h a) = Some q \<longrightarrow> q < newQueue h"
    and lw: "\<forall>q. fiberUpdateQueue (fibers h w) = Some q \<longrightarrow> queueList h q xs"
    and la: "\<forall>q. fiberUpdateQueue (fibers h a) = Some q \<longrightarrow> queueList h q ys"
    and nw: "fiberUpdateQueue (fibers h w) = None \<longrightarrow>
               (case fiberUpdateQueue (fibers h a) of None \<Rightarrow> xs = [] | Some q \<Rightarrow> xs = ys)"
    and na: "fiberUpdateQueue (fibers h a) = None \<longrightarrow>
               (case fiberUpdateQueue (fibers h w) of None \<Rightarrow> ys = [] | Some q \<Rightarrow> ys = xs)"
    and compat: "xs \<noteq> [] \<and> ys \<noteq> [] \<longrightarrow> last xs = last ys"
    and u1: "u \<notin> set xs" and u2: "u \<notin> set ys" and un: "nextUpdate (updates h u) = None"
  shows "\<exists>qw qa.
     fiberUpdateQueue (fibers (enqueueUpdate h target u) w) = Some qw \<and>
     fiberUpdateQueue (fibers (enqueueUpdate h target u) a) = Some qa \<and>
     qw < newQueue (enqueueUpdate h target u) \<and> qa < newQueue (enqueueUpdate h target u) \<and>
     queueList (enqueueUpdate h target u) qw (xs @ [u]) \<and>
     queueList (enqueueUpdate h target u) qa (ys @ [u]) \<and>
     (\<forall>x. alternate (fibers (enqueueUpdate h target u) x) = alternate (fibers h x) \<and>
          memoizedState (fibers (enqueueUpdate h target u) x) = memoizedState (fibers h x)) \<and>
     newUpdate (enqueueUpdate h target u) = newUpdate h \<and>
     (\<forall>x. tag (updates (enqueueUpdate h target u) x) = tag (updates h x) \<and>
          payload (updates (enqueueUpdate h target u) x) = payload (updates h x)) \<and>
     (case fiberUpdateQueue (fibers h w) of
        Some q \<Rightarrow> qw = q \<and>
          baseState (queues (enqueueUpdate h target u) qw) = baseState (queues h q) \<and>
          firstCapturedUpdate (queues (enqueueUpdate h target u) qw) =
            firstCapturedUpdate (queues h q)
      | None \<Rightarrow> 
          firstCapturedUpdate (queues (enqueueUpdate h target u) qw) = None \<and>
          baseState (queues (enqueueUpdate h target u) qw) =
            (case fiberUpdateQueue (fibers h a) of
               None \<Rightarrow> memoizedState (fibers h w)
             | Some q \<Rightarrow> baseState (queues h q)))"
  using tgt
proof
  assume t: "target = w"
  from enqueueUpdate_pair [OF alt(1) ne bound lw la nw na compat u1 u2 un]
  show ?thesis unfolding t by (elim exE conjE) (intro exI conjI; (assumption | simp split: option.splits))
next
  assume t: "target = a"
  have bound': "\<forall>q. fiberUpdateQueue (fibers h a) = Some q \<or>
                    fiberUpdateQueue (fibers h w) = Some q \<longrightarrow> q < newQueue h"
    using bound by blast
  have compat': "ys \<noteq> [] \<and> xs \<noteq> [] \<longrightarrow> last ys = last xs" using compat by auto
  from enqueueUpdate_pair [OF alt(2) ne [symmetric] bound' la lw na nw compat' u2 u1 un]
  obtain q1 q2 where
    1: "fiberUpdateQueue (fibers (enqueueUpdate h a u) a) = Some q1"
    and 2: "fiberUpdateQueue (fibers (enqueueUpdate h a u) w) = Some q2"
    and 3: "q1 < newQueue (enqueueUpdate h a u)" and 4: "q2 < newQueue (enqueueUpdate h a u)"
    and 5: "queueList (enqueueUpdate h a u) q1 (ys @ [u])"
    and 6: "queueList (enqueueUpdate h a u) q2 (xs @ [u])"
    and 7: "\<forall>x. alternate (fibers (enqueueUpdate h a u) x) = alternate (fibers h x) \<and>
          memoizedState (fibers (enqueueUpdate h a u) x) = memoizedState (fibers h x)"
    and 8: "newUpdate (enqueueUpdate h a u) = newUpdate h"
    and 9: "\<forall>x. tag (updates (enqueueUpdate h a u) x) = tag (updates h x) \<and>
          payload (updates (enqueueUpdate h a u) x) = payload (updates h x)"
    and 10: "case fiberUpdateQueue (fibers h w) of
        Some q \<Rightarrow> q2 = q \<and>
          baseState (queues (enqueueUpdate h a u) q2) = baseState (queues h q) \<and>
          firstCapturedUpdate (queues (enqueueUpdate h a u) q2) =
            firstCapturedUpdate (queues h q)
      | None \<Rightarrow> q1 \<noteq> q2 \<and>
          firstCapturedUpdate (queues (enqueueUpdate h a u) q2) = None \<and>
          baseState (queues (enqueueUpdate h a u) q2) =
            (case fiberUpdateQueue (fibers h a) of
               None \<Rightarrow> memoizedState (fibers h w)
             | Some q \<Rightarrow> baseState (queues h q))"
    by (elim exE conjE) (rule that)
  have 11: "case fiberUpdateQueue (fibers h w) of
        Some q \<Rightarrow> q2 = q \<and>
          baseState (queues (enqueueUpdate h a u) q2) = baseState (queues h q) \<and>
          firstCapturedUpdate (queues (enqueueUpdate h a u) q2) =
            firstCapturedUpdate (queues h q)
      | None \<Rightarrow>
          firstCapturedUpdate (queues (enqueueUpdate h a u) q2) = None \<and>
          baseState (queues (enqueueUpdate h a u) q2) =
            (case fiberUpdateQueue (fibers h a) of
               None \<Rightarrow> memoizedState (fibers h w)
             | Some q \<Rightarrow> baseState (queues h q))"
    using 10 by (simp split: option.splits)
  from 2 1 4 3 6 5 7 8 9 11 show ?thesis
    unfolding t by (intro exI [of _ q2] exI [of _ q1] conjI)
qed

lemma nonLoss_enqueue:
  assumes inv: "nonLoss w s0 n0 ps h"
    and tgt: "target = w \<or> alternate (fibers h w) = Some target"
  shows "nonLoss w s0 n0 ps (fst (scheduleUpdate h target t tg p cb))"
proof -
  from inv obtain trb trm post pa where
    le: "n0 \<le> newUpdate h"
    and all: "[n0..<newUpdate h] = map fst trb @ post"
    and memo: "memoizedState (fibers h w) = applyEach h s0 trm"
    and sub: "set trb \<subseteq> set trm" and pss: "snd ` set trm \<subseteq> ps"
    and srt: "sorted_wrt (<) (map fst trm)"
    and btm: "set (map fst trm) \<subseteq> {n0..<newUpdate h}"
    and bpa: "set pa \<subseteq> {n0..<newUpdate h}"
    and alts: "\<forall>a. alternate (fibers h w) = Some a \<longrightarrow>
           a \<noteq> w \<and> alternate (fibers h a) = Some w"
    and c: "case fiberUpdateQueue (fibers h w) of
           None \<Rightarrow>
             trb = [] \<and> trm = [] \<and> post = [] \<and> pa = [] \<and>
             (\<forall>a. alternate (fibers h w) = Some a \<longrightarrow> fiberUpdateQueue (fibers h a) = None)
         | Some q \<Rightarrow>
             q < newQueue h \<and> firstCapturedUpdate (queues h q) = None \<and>
             queueList h q post \<and> baseState (queues h q) = applyEach h s0 trb \<and>
             (\<forall>a. alternate (fibers h w) = Some a \<longrightarrow>
                (case fiberUpdateQueue (fibers h a) of
                   None \<Rightarrow> pa = []
                 | Some qa \<Rightarrow> qa < newQueue h \<and> queueList h qa (pa @ post)))"
    unfolding nonLoss_def by (elim exE conjE) (rule that)
  define u where "u = newUpdate h"
  define h2 where "h2 = writeUpdate (fst (createUpdate h t)) u
    (\<lambda>r. r\<lparr>tag := tg, payload := p, callback := cb\<rparr>)"
  define h' where "h' = enqueueUpdate h2 target u"
  have sch: "fst (scheduleUpdate h target t tg p cb) = h'"
    by (simp add: scheduleUpdate_def createUpdate_def Let_def h'_def h2_def u_def)
  have h2: "fibers h2 = fibers h" "queues h2 = queues h" "newQueue h2 = newQueue h"
    "newUpdate h2 = Suc u" "nextUpdate (updates h2 u) = None"
    "\<And>x. x \<noteq> u \<Longrightarrow> updates h2 x = updates h x"
    by (simp_all add: h2_def createUpdate_def writeUpdate_def Let_def u_def)
  have keep: "queueList h2 q xs" if "queueList h q xs" "u \<notin> set xs" for q xs
  proof (rule queueList_cong [OF that(1)])
    fix x assume "x \<in> set xs"
    with that(2) have "x \<noteq> u" by auto
    then show "nextUpdate (updates h2 x) = nextUpdate (updates h x)" by (simp add: h2(6))
  qed (simp_all add: h2)
  have "set post \<subseteq> set [n0..<newUpdate h]" unfolding all by simp
  then have upost: "u \<notin> set post" by (auto simp: u_def)
  with bpa have upa: "u \<notin> set (pa @ post)" by (auto simp: u_def)
  have RF: "(\<exists>qw. fiberUpdateQueue (fibers h' w) = Some qw \<and> qw < newQueue h' \<and>
        firstCapturedUpdate (queues h' qw) = None \<and> queueList h' qw (post @ [u]) \<and>
        baseState (queues h' qw) = applyEach h s0 trb \<and>
        (\<forall>a. alternate (fibers h w) = Some a \<longrightarrow>
           (\<exists>qa. fiberUpdateQueue (fibers h' a) = Some qa \<and> qa < newQueue h' \<and>
                 queueList h' qa ((pa @ post) @ [u])))) \<and>
     (\<forall>x. alternate (fibers h' x) = alternate (fibers h2 x) \<and>
          memoizedState (fibers h' x) = memoizedState (fibers h2 x)) \<and>
     newUpdate h' = newUpdate h2 \<and>
     (\<forall>x. tag (updates h' x) = tag (updates h2 x) \<and>
          payload (updates h' x) = payload (updates h2 x))"
  proof (cases "alternate (fibers h w)")
    case None
    with tgt have t: "target = w" by simp
    have a1: "alternate (fibers h2 w) = None" using None by (simp add: h2)
    have a2: "\<forall>q. fiberUpdateQueue (fibers h2 w) = Some q \<longrightarrow> q < newQueue h2"
      using c by (auto simp: h2)
    have a3: "\<forall>q. fiberUpdateQueue (fibers h2 w) = Some q \<longrightarrow> queueList h2 q post"
      using c upost by (auto simp: h2 intro: keep)
    have a4: "fiberUpdateQueue (fibers h2 w) = None \<longrightarrow> post = []"
      using c by (auto simp: h2)
    have hw: "enqueueUpdate h2 w u = h'" by (simp add: h'_def t)
    from enqueueUpdate_single [OF a1 a2 a3 a4 upost h2(5), unfolded hw] obtain q1 where
      1: "fiberUpdateQueue (fibers h' w) = Some q1" and 2: "q1 < newQueue h'"
      and 3: "queueList h' q1 (post @ [u])"
      and 4: "\<forall>x. alternate (fibers h' x) = alternate (fibers h2 x) \<and>
          memoizedState (fibers h' x) = memoizedState (fibers h2 x)"
      and 5: "newUpdate h' = newUpdate h2"
      and 6: "\<forall>a. tag (updates h' a) = tag (updates h2 a) \<and>
          payload (updates h' a) = payload (updates h2 a)"
      and 7: "case fiberUpdateQueue (fibers h2 w) of
        Some q \<Rightarrow> q1 = q \<and>
          baseState (queues h' q1) = baseState (queues h2 q) \<and>
          firstCapturedUpdate (queues h' q1) = firstCapturedUpdate (queues h2 q)
      | None \<Rightarrow>
          firstCapturedUpdate (queues h' q1) = None \<and>
          baseState (queues h' q1) = memoizedState (fibers h2 w)"
      by (elim exE conjE) (rule that)
    have 8: "firstCapturedUpdate (queues h' q1) = None \<and>
        baseState (queues h' q1) = applyEach h s0 trb"
      using 7 c memo by (auto simp: h2 applyEach_Nil split: option.splits)
    from 1 2 3 4 5 6 8 None show ?thesis by simp
  next
    case (Some a)
    with alts have ne: "a \<noteq> w" and alt2: "alternate (fibers h a) = Some w" by auto
    from tgt Some have t: "target = w \<or> target = a" by auto
    have a1: "alternate (fibers h2 w) = Some a" "alternate (fibers h2 a) = Some w"
      using Some alt2 by (simp_all add: h2)
    have a2: "\<forall>q. fiberUpdateQueue (fibers h2 w) = Some q \<or>
                  fiberUpdateQueue (fibers h2 a) = Some q \<longrightarrow> q < newQueue h2"
      using c Some by (auto simp: h2 split: option.splits)
    have a3: "\<forall>q. fiberUpdateQueue (fibers h2 w) = Some q \<longrightarrow> queueList h2 q post"
      using c upost by (auto simp: h2 intro: keep)
    have a4: "\<forall>q. fiberUpdateQueue (fibers h2 a) = Some q \<longrightarrow> queueList h2 q (pa @ post)"
      using c Some upa by (auto simp: h2 intro: keep split: option.splits)
    have a5: "fiberUpdateQueue (fibers h2 w) = None \<longrightarrow>
               (case fiberUpdateQueue (fibers h2 a) of None \<Rightarrow> post = []
                | Some q \<Rightarrow> post = pa @ post)"
      using c Some by (auto simp: h2 split: option.splits)
    have a6: "fiberUpdateQueue (fibers h2 a) = None \<longrightarrow>
               (case fiberUpdateQueue (fibers h2 w) of None \<Rightarrow> pa @ post = []
                | Some q \<Rightarrow> pa @ post = post)"
      using c Some by (auto simp: h2 split: option.splits)
    have a7: "post \<noteq> [] \<and> pa @ post \<noteq> [] \<longrightarrow> last post = last (pa @ post)" by simp
    from enqueueUpdate_either [OF t a1 ne a2 a3 a4 a5 a6 a7 upost upa h2(5), folded h'_def]
    obtain qw qa where
      1: "fiberUpdateQueue (fibers h' w) = Some qw"
      and p1: "fiberUpdateQueue (fibers h' a) = Some qa"
      and 2: "qw < newQueue h'" and p2: "qa < newQueue h'"
      and 3: "queueList h' qw (post @ [u])" and p3: "queueList h' qa ((pa @ post) @ [u])"
      and 4: "\<forall>x. alternate (fibers h' x) = alternate (fibers h2 x) \<and>
          memoizedState (fibers h' x) = memoizedState (fibers h2 x)"
      and 5: "newUpdate h' = newUpdate h2"
      and 6: "\<forall>x. tag (updates h' x) = tag (updates h2 x) \<and>
          payload (updates h' x) = payload (updates h2 x)"
      and 7: "case fiberUpdateQueue (fibers h2 w) of
        Some q \<Rightarrow> qw = q \<and>
          baseState (queues h' qw) = baseState (queues h2 q) \<and>
          firstCapturedUpdate (queues h' qw) = firstCapturedUpdate (queues h2 q)
      | None \<Rightarrow>
          firstCapturedUpdate (queues h' qw) = None \<and>
          baseState (queues h' qw) =
            (case fiberUpdateQueue (fibers h2 a) of
               None \<Rightarrow> memoizedState (fibers h2 w)
             | Some q \<Rightarrow> baseState (queues h2 q))"
      by (elim exE conjE) (rule that)
    have 8: "firstCapturedUpdate (queues h' qw) = None \<and>
        baseState (queues h' qw) = applyEach h s0 trb"
      using 7 c memo Some by (auto simp: h2 applyEach_Nil split: option.splits)
    from 1 p1 2 p2 3 p3 4 5 6 8 Some show ?thesis by simp
  qed
  then obtain qw where
    r1: "fiberUpdateQueue (fibers h' w) = Some qw" and r2: "qw < newQueue h'"
    and r3: "firstCapturedUpdate (queues h' qw) = None"
    and r4: "queueList h' qw (post @ [u])"
    and r5: "baseState (queues h' qw) = applyEach h s0 trb"
    and r6: "\<forall>a. alternate (fibers h w) = Some a \<longrightarrow>
           (\<exists>qa. fiberUpdateQueue (fibers h' a) = Some qa \<and> qa < newQueue h' \<and>
                 queueList h' qa ((pa @ post) @ [u]))"
    and f1: "\<forall>x. alternate (fibers h' x) = alternate (fibers h2 x) \<and>
          memoizedState (fibers h' x) = memoizedState (fibers h2 x)"
    and f2: "newUpdate h' = newUpdate h2"
    and f3: "\<forall>x. tag (updates h' x) = tag (updates h2 x) \<and>
          payload (updates h' x) = payload (updates h2 x)"
    by (elim exE conjE) (rule that)
  have same: "applyEach h' s0 tr = applyEach h s0 tr" if "set (map fst tr) \<subseteq> {n0..<newUpdate h}" for tr
  proof (rule applyEach_cong)
    fix x assume "x \<in> set (map fst tr)"
    with that have "x \<noteq> u" by (auto simp: u_def)
    then show "tag (updates h' x) = tag (updates h x) \<and> payload (updates h' x) = payload (updates h x)"
      using f3 by (simp add: h2(6))
  qed
  have btb: "set (map fst trb) \<subseteq> {n0..<newUpdate h}" using sub btm by auto
  have n': "newUpdate h' = Suc (newUpdate h)" using f2 by (simp add: h2 u_def)
  have g1: "n0 \<le> newUpdate h'" using le n' by simp
  have g2: "[n0..<newUpdate h'] = map fst trb @ (post @ [u])"
    using le all by (simp add: n' u_def)
  have g3: "memoizedState (fibers h' w) = applyEach h' s0 trm"
    using f1 memo by (simp add: h2 same [OF btm])
  have g6: "set (map fst trm) \<subseteq> {n0..<newUpdate h'}" using btm n' by auto
  have g7: "set pa \<subseteq> {n0..<newUpdate h'}" using bpa n' by auto
  have g8: "\<forall>a. alternate (fibers h' w) = Some a \<longrightarrow>
           a \<noteq> w \<and> alternate (fibers h' a) = Some w"
    using alts f1 by (simp add: h2)
  have g9: "case fiberUpdateQueue (fibers h' w) of
           None \<Rightarrow>
             trb = [] \<and> trm = [] \<and> post @ [u] = [] \<and> pa = [] \<and>
             (\<forall>a. alternate (fibers h' w) = Some a \<longrightarrow> fiberUpdateQueue (fibers h' a) = None)
         | Some q \<Rightarrow>
             q < newQueue h' \<and> firstCapturedUpdate (queues h' q) = None \<and>
             queueList h' q (post @ [u]) \<and> baseState (queues h' q) = applyEach h' s0 trb \<and>
             (\<forall>a. alternate (fibers h' w) = Some a \<longrightarrow>
                (case fiberUpdateQueue (fibers h' a) of
                   None \<Rightarrow> pa = []
                 | Some qa \<Rightarrow> qa < newQueue h' \<and> queueList h' qa (pa @ post @ [u])))"
    using r1 r2 r3 r4 r5 r6 f1 by (auto simp: h2 same [OF btb])
  from g1 g2 g3 sub pss srt g6 g7 g8 g9 show ?thesis
    unfolding nonLoss_def sch
    by (intro exI [of _ trb] exI [of _ trm] exI [of _ "post @ [u]"] exI [of _ pa] conjI)
qed

lemma ensureWorkInProgressQueueIsAClone_frame:
  assumes ens: "ensureWorkInProgressQueueIsAClone h w q = (h1, q')" and b: "q < newQueue h"
  shows "newUpdate h1 = newUpdate h" and "q' < newQueue h1" and "newQueue h \<le> newQueue h1"
    and "alternate (fibers h1 x) = alternate (fibers h x)"
    and "x \<noteq> w \<Longrightarrow> fibers h1 x = fibers h x"
    and "y \<noteq> q' \<Longrightarrow> queues h1 y = queues h y"
    and "alternate (fibers h w) = Some a \<Longrightarrow> fiberUpdateQueue (fibers h a) = Some qa \<Longrightarrow>
         qa < newQueue h \<Longrightarrow> qa \<noteq> q'"
  using ens b
  by (auto simp: ensureWorkInProgressQueueIsAClone_def cloneUpdateQueue_def writeFiber_def
      Let_def split: option.splits if_splits)

lemma last_dropWhile:
  "dropWhile P xs \<noteq> [] \<Longrightarrow> last (dropWhile P xs) = last xs"
  by (induction xs) (auto split: if_splits)

lemma queueList_dropWhile:
  assumes l: "queueList h q xs"
    and fu: "firstUpdate (queues h' q) = List.find (\<lambda>u. \<not> P u) xs"
    and lu: "lastUpdate (queues h' q) = (if list_all P xs then None else lastUpdate (queues h q))"
    and same: "sameRecords h h'"
  shows "queueList h' q (dropWhile P xs)"
proof -
  from l have "updateList h (firstUpdate (queues h q)) xs" by (simp add: queueList_def)
  then have "updateList h (List.find (\<lambda>u. \<not> P u) xs) (dropWhile P xs)"
    unfolding updateList_def by (rule linked_dropWhile)
  then have 1: "updateList h' (firstUpdate (queues h' q)) (dropWhile P xs)"
    by (simp add: fu sameRecords_updateList [OF same])
  have 2: "list_all P xs \<longleftrightarrow> dropWhile P xs = []"
    by (simp add: list_all_iff dropWhile_eq_Nil_conv)
  have "lastUpdate (queues h' q) =
      (if dropWhile P xs = [] then None else Some (last (dropWhile P xs)))"
  proof (cases "dropWhile P xs = []")
    case True
    then show ?thesis using lu 2 by simp
  next
    case False
    then have "xs \<noteq> []" by auto
    with l have "lastUpdate (queues h q) = Some (last xs)" by (simp add: queueList_def)
    with False show ?thesis using lu 2 by (simp add: last_dropWhile)
  qed
  with 1 show ?thesis by (simp add: queueList_def)
qed

lemma nonLoss_process:
  assumes inv: "nonLoss w s0 n0 ps h" and fq: "fiberUpdateQueue (fibers h w) = Some q"
  shows "\<exists>h'. processUpdateQueue h w q p i r = Some h' \<and> nonLoss w s0 n0 (insert (p, i) ps) h'"
proof -
  from inv obtain trb trm post pa where
    le: "n0 \<le> newUpdate h"
    and all: "[n0..<newUpdate h] = map fst trb @ post"
    and memo: "memoizedState (fibers h w) = applyEach h s0 trm"
    and sub: "set trb \<subseteq> set trm" and pss: "snd ` set trm \<subseteq> ps"
    and srt: "sorted_wrt (<) (map fst trm)"
    and btm: "set (map fst trm) \<subseteq> {n0..<newUpdate h}"
    and bpa: "set pa \<subseteq> {n0..<newUpdate h}"
    and alts: "\<forall>a. alternate (fibers h w) = Some a \<longrightarrow>
           a \<noteq> w \<and> alternate (fibers h a) = Some w"
    and c: "case fiberUpdateQueue (fibers h w) of
           None \<Rightarrow>
             trb = [] \<and> trm = [] \<and> post = [] \<and> pa = [] \<and>
             (\<forall>a. alternate (fibers h w) = Some a \<longrightarrow> fiberUpdateQueue (fibers h a) = None)
         | Some q \<Rightarrow>
             q < newQueue h \<and> firstCapturedUpdate (queues h q) = None \<and>
             queueList h q post \<and> baseState (queues h q) = applyEach h s0 trb \<and>
             (\<forall>a. alternate (fibers h w) = Some a \<longrightarrow>
                (case fiberUpdateQueue (fibers h a) of
                   None \<Rightarrow> pa = []
                 | Some qa \<Rightarrow> qa < newQueue h \<and> queueList h qa (pa @ post)))"
    unfolding nonLoss_def by (elim exE conjE) (rule that)
  from c fq have qb: "q < newQueue h" and nocap: "firstCapturedUpdate (queues h q) = None"
    and ql: "queueList h q post" and base: "baseState (queues h q) = applyEach h s0 trb"
    and ca: "\<forall>a. alternate (fibers h w) = Some a \<longrightarrow>
                (case fiberUpdateQueue (fibers h a) of
                   None \<Rightarrow> pa = []
                 | Some qa \<Rightarrow> qa < newQueue h \<and> queueList h qa (pa @ post))"
    by simp_all
  define h0 where "h0 = h\<lparr>hasForceUpdate := False\<rparr>"
  obtain h1 q' where ens: "ensureWorkInProgressQueueIsAClone h0 w q = (h1, q')"
    by (cases "ensureWorkInProgressQueueIsAClone h0 w q")
  have qb0: "q < newQueue h0" using qb by (simp add: h0_def)
  note e = ensureWorkInProgressQueueIsAClone_queue [OF ens]
  note f = ensureWorkInProgressQueueIsAClone_frame [OF ens qb0]
  have u1: "updates h1 = updates h" using e(1) by (simp add: h0_def)
  have ql1: "queueList h1 q' post"
    using ql by (rule queueList_cong) (simp_all add: e(3,4) u1 h0_def)
  then have xs1: "updateList h1 (firstUpdate (queues h1 q')) post" by (simp add: queueList_def)
  have ys1: "updateList h1 (firstCapturedUpdate (queues h1 q')) []"
    using e(5) nocap by (simp add: updateList_def h0_def)
  define P where "P = sufficient h1 r"
  from processUpdateQueue_lists [OF ens [unfolded h0_def] xs1 ys1, of p i r, folded P_def]
  obtain h' where
    run: "processUpdateQueue h w q p i r = Some h'"
    and fr: "passFrame w q' h1 h'"
    and b: "baseState (queues h' q') =
       applyUpdates h1 p i (baseState (queues h1 q')) (takeWhile P (post @ []))"
    and m: "memoizedState (fibers h' w) =
       applyUpdates h1 p i (baseState (queues h1 q')) (filter P (post @ []))"
    and fu: "firstUpdate (queues h' q') = List.find (\<lambda>u. \<not> P u) post"
    and lu: "lastUpdate (queues h' q') =
       (if list_all P post then None else lastUpdate (queues h1 q'))"
    and fc: "firstCapturedUpdate (queues h' q') = List.find (\<lambda>u. \<not> P u) []"
    by (elim exE conjE) (rule that)
  have sr: "sameRecords h1 h'" using fr by (rule passFrame_sameRecords)
  have recs: "tag (updates h' x) = tag (updates h x) \<and> payload (updates h' x) = payload (updates h x)"
    for x using sr by (simp add: sameRecords_def u1)
  have same: "applyEach h' s tr = applyEach h s tr" for s tr
    by (rule applyEach_cong) (simp add: recs)
  have base1: "baseState (queues h1 q') = applyEach h' s0 trb"
    using e(2) base by (simp add: h0_def same)
  have nu: "newUpdate h' = newUpdate h" using fr f(1) by (simp add: passFrame_def h0_def)
  have nq: "newQueue h' = newQueue h1" using fr by (simp add: passFrame_def)
  define shared where "shared \<longleftrightarrow>
    (\<exists>a qa. alternate (fibers h w) = Some a \<and> fiberUpdateQueue (fibers h a) = Some qa)"
  define trb' where "trb' = trb @ map (\<lambda>u. (u, p, i)) (takeWhile P post)"
  define trm' where "trm' = trb @ map (\<lambda>u. (u, p, i)) (filter P post)"
  define pa' where "pa' = (if shared then pa @ takeWhile P post else [])"
  have mf: "map fst (map (\<lambda>u. (u, p, i)) xs) = xs"
    "map (fst \<circ> (\<lambda>u. (u, p, i))) xs = xs" for xs :: "nat list"
    by (simp_all add: comp_def)
  have g1: "n0 \<le> newUpdate h'" using le nu by simp
  have g2: "[n0..<newUpdate h'] = map fst trb' @ dropWhile P post"
    using all by (simp add: nu trb'_def mf)
  have g3: "memoizedState (fibers h' w) = applyEach h' s0 trm'"
    using m by (simp add: trm'_def applyEach_append applyEach_map base1
        sameRecords_applyUpdates [OF sr])
  have g4: "set trb' \<subseteq> set trm'"
    using sub by (auto simp: trb'_def trm'_def dest: set_takeWhileD)
  have g4': "snd ` set trm' \<subseteq> insert (p, i) ps"
    using sub pss by (auto simp: trm'_def)
  have "sorted_wrt (<) (map fst trb @ post)" unfolding all [symmetric] by simp
  then have g5: "sorted_wrt (<) (map fst trm')"
    unfolding trm'_def by (simp add: mf sorted_wrt_filter_append)
  have sall: "set (map fst trb) \<union> set post = {n0..<newUpdate h}"
    using arg_cong [OF all, of set] by simp
  have g6: "set (map fst trm') \<subseteq> {n0..<newUpdate h'}"
    using sall by (auto simp: trm'_def mf nu)
  have g7: "set pa' \<subseteq> {n0..<newUpdate h'}"
    using sall bpa by (auto simp: pa'_def nu dest: set_takeWhileD)
  have fibw: "alternate (fibers h' w) = alternate (fibers h w)"
    "fiberUpdateQueue (fibers h' w) = Some q'"
    using fr f(4) [of w] e(6) fq by (simp_all add: passFrame_def h0_def)
  have fiba: "fibers h' a = fibers h a" if "a \<noteq> w" for a
    using fr f(5) [OF that] that by (simp add: passFrame_def h0_def)
  have g8: "\<forall>a. alternate (fibers h' w) = Some a \<longrightarrow>
           a \<noteq> w \<and> alternate (fibers h' a) = Some w"
    using alts by (auto simp: fibw fiba)
  have k1: "q' < newQueue h'" using f(2) by (simp add: nq)
  have k2: "firstCapturedUpdate (queues h' q') = None" using fc by simp
  have k3: "queueList h' q' (dropWhile P post)"
    using ql1 fu lu sr by (rule queueList_dropWhile)
  have k4: "baseState (queues h' q') = applyEach h' s0 trb'"
    using b by (simp add: trb'_def applyEach_append applyEach_map base1
        sameRecords_applyUpdates [OF sr])
  have k5: "case fiberUpdateQueue (fibers h' a) of
              None \<Rightarrow> pa' = []
            | Some qa \<Rightarrow> qa < newQueue h' \<and> queueList h' qa (pa' @ dropWhile P post)"
    if "alternate (fibers h' w) = Some a" for a
  proof (cases "fiberUpdateQueue (fibers h a)")
    case None
    from that alts have "a \<noteq> w" by (auto simp: fibw)
    moreover from that None alts have "\<not> shared" by (auto simp: shared_def fibw)
    ultimately show ?thesis using None by (simp add: fiba pa'_def)
  next
    case (Some qa)
    from that alts have aw: "a \<noteq> w" and al: "alternate (fibers h w) = Some a"
      by (auto simp: fibw)
    from al Some have sh: "shared" by (auto simp: shared_def)
    from ca al Some have qab: "qa < newQueue h" and qal: "queueList h qa (pa @ post)" by auto
    have "qa \<noteq> q'" using f(7) [of a qa] al Some qab by (simp add: h0_def)
    then have qs: "queues h' qa = queues h qa"
      using fr f(6) [of qa] by (simp add: passFrame_def h0_def)
    have "queueList h' qa (pa @ post)"
      using qal by (rule queueList_cong) (simp_all add: qs, simp add: sr [unfolded sameRecords_def] u1)
    moreover have "qa < newQueue h'" using qab f(3) by (simp add: nq h0_def)
    ultimately show ?thesis using Some aw sh by (simp add: fiba pa'_def)
  qed
  have g9: "case fiberUpdateQueue (fibers h' w) of
           None \<Rightarrow>
             trb' = [] \<and> trm' = [] \<and> dropWhile P post = [] \<and> pa' = [] \<and>
             (\<forall>a. alternate (fibers h' w) = Some a \<longrightarrow> fiberUpdateQueue (fibers h' a) = None)
         | Some q \<Rightarrow>
             q < newQueue h' \<and> firstCapturedUpdate (queues h' q) = None \<and>
             queueList h' q (dropWhile P post) \<and> baseState (queues h' q) = applyEach h' s0 trb' \<and>
             (\<forall>a. alternate (fibers h' w) = Some a \<longrightarrow>
                (case fiberUpdateQueue (fibers h' a) of
                   None \<Rightarrow> pa' = []
                 | Some qa \<Rightarrow> qa < newQueue h' \<and> queueList h' qa (pa' @ dropWhile P post)))"
    using k1 k2 k3 k4 k5 by (simp add: fibw)
  from g1 g2 g3 g4 g4' g5 g6 g7 g8 g9 have "nonLoss w s0 n0 (insert (p, i) ps) h'"
    unfolding nonLoss_def
    by (intro exI [of _ trb'] exI [of _ trm'] exI [of _ "dropWhile P post"] exI [of _ pa'] conjI)
  with run show ?thesis by simp
qed

lemma nonLoss_mono:
  assumes "nonLoss w s0 n0 ps h" and "ps \<subseteq> ps'"
  shows "nonLoss w s0 n0 ps' h"
proof -
  from assms(1) obtain trb trm post pa where
    1: "n0 \<le> newUpdate h"
    and 2: "[n0..<newUpdate h] = map fst trb @ post"
    and 3: "memoizedState (fibers h w) = applyEach h s0 trm"
    and 4: "set trb \<subseteq> set trm" and 5: "snd ` set trm \<subseteq> ps"
    and 6: "sorted_wrt (<) (map fst trm)"
    and 7: "set (map fst trm) \<subseteq> {n0..<newUpdate h}"
    and 8: "set pa \<subseteq> {n0..<newUpdate h}"
    and 9: "\<forall>a. alternate (fibers h w) = Some a \<longrightarrow>
           a \<noteq> w \<and> alternate (fibers h a) = Some w"
    and 10: "case fiberUpdateQueue (fibers h w) of
           None \<Rightarrow>
             trb = [] \<and> trm = [] \<and> post = [] \<and> pa = [] \<and>
             (\<forall>a. alternate (fibers h w) = Some a \<longrightarrow> fiberUpdateQueue (fibers h a) = None)
         | Some q \<Rightarrow>
             q < newQueue h \<and> firstCapturedUpdate (queues h q) = None \<and>
             queueList h q post \<and> baseState (queues h q) = applyEach h s0 trb \<and>
             (\<forall>a. alternate (fibers h w) = Some a \<longrightarrow>
                (case fiberUpdateQueue (fibers h a) of
                   None \<Rightarrow> pa = []
                 | Some qa \<Rightarrow> qa < newQueue h \<and> queueList h qa (pa @ post)))"
    unfolding nonLoss_def by (elim exE conjE) (rule that)
  from 5 assms(2) have p5: "snd ` set trm \<subseteq> ps'" by blast
  from 1 2 3 4 p5 6 7 8 9 10 show ?thesis
    unfolding nonLoss_def
    by (intro exI [of _ trb] exI [of _ trm] exI [of _ post] exI [of _ pa] conjI)
qed

lemma unscheduled_nonLoss:
  assumes "unscheduled h w"
  shows "nonLoss w (memoizedState (fibers h w)) (newUpdate h) {} h"
proof -
  have "n0 \<le> newUpdate h \<and>
        [n0..<newUpdate h] = map fst [] @ [] \<and>
        memoizedState (fibers h w) = applyEach h s0 [] \<and>
        set [] \<subseteq> set [] \<and> snd ` set [] \<subseteq> {} \<and>
        sorted_wrt (<) (map fst []) \<and>
        set (map fst []) \<subseteq> {n0..<newUpdate h} \<and>
        set [] \<subseteq> {n0..<newUpdate h} \<and>
        (\<forall>a. alternate (fibers h w) = Some a \<longrightarrow>
           a \<noteq> w \<and> alternate (fibers h a) = Some w) \<and>
        (case fiberUpdateQueue (fibers h w) of
           None \<Rightarrow>
             [] = [] \<and> [] = [] \<and> [] = [] \<and> [] = [] \<and>
             (\<forall>a. alternate (fibers h w) = Some a \<longrightarrow> fiberUpdateQueue (fibers h a) = None)
         | Some q \<Rightarrow>
             q < newQueue h \<and> firstCapturedUpdate (queues h q) = None \<and>
             queueList h q [] \<and> baseState (queues h q) = applyEach h s0 [] \<and>
             (\<forall>a. alternate (fibers h w) = Some a \<longrightarrow>
                (case fiberUpdateQueue (fibers h a) of
                   None \<Rightarrow> [] = []
                 | Some qa \<Rightarrow> qa < newQueue h \<and> queueList h qa ([] @ []))))"
    if "s0 = memoizedState (fibers h w)" "n0 = newUpdate h" for s0 n0
    using assms that
    by (auto simp: unscheduled_def applyEach_Nil queueList_def updateList_def
        split: option.splits)
  note init = this [OF refl refl]
  show ?thesis
    unfolding nonLoss_def
    by (rule exI [of _ "[]"], rule exI [of _ "[]"], rule exI [of _ "[]"],
        rule exI [of _ "[]"], rule init)
qed

lemma nonLoss_perform:
  assumes "nonLoss w s0 n0 ps h"
  shows "\<exists>h'. perform h w op = Some h' \<and> nonLoss w s0 n0 (ps \<union> passes [op]) h'"
proof (cases op)
  case (Enqueue onAlternate t tg p cb)
  define target where "target =
    (if onAlternate then (case alternate (fibers h w) of None \<Rightarrow> w | Some a \<Rightarrow> a) else w)"
  have "target = w \<or> alternate (fibers h w) = Some target"
    by (simp add: target_def split: option.splits)
  with assms have "nonLoss w s0 n0 ps (fst (scheduleUpdate h target t tg p cb))"
    by (rule nonLoss_enqueue)
  then show ?thesis by (simp add: Enqueue target_def)
next
  case (Process p i r)
  show ?thesis
  proof (cases "fiberUpdateQueue (fibers h w)")
    case None
    with assms show ?thesis by (auto simp: Process intro: nonLoss_mono)
  next
    case (Some q)
    from nonLoss_process [OF assms Some, of p i r] show ?thesis
      by (simp add: Process Some)
  qed
qed

lemma passes_append: "passes (xs @ ys) = passes xs \<union> passes ys"
  by (induction xs rule: passes.induct) auto

lemma nonLoss_performAll:
  "nonLoss w s0 n0 ps h \<Longrightarrow>
   \<exists>h'. performAll h w ops = Some h' \<and> nonLoss w s0 n0 (ps \<union> passes ops) h'"
proof (induction ops arbitrary: h ps)
  case Nil
  then show ?case by simp
next
  case (Cons op ops)
  from nonLoss_perform [OF Cons.prems, of op] obtain h1 where
    1: "perform h w op = Some h1" and 2: "nonLoss w s0 n0 (ps \<union> passes [op]) h1" by blast
  from Cons.IH [OF 2] obtain h' where
    3: "performAll h1 w ops = Some h'"
    and 4: "nonLoss w s0 n0 (ps \<union> passes [op] \<union> passes ops) h'" by blast
  have "passes (op # ops) = passes [op] \<union> passes ops"
    using passes_append [of "[op]" ops] by simp
  with 4 have "nonLoss w s0 n0 (ps \<union> passes (op # ops)) h'" by (simp add: Un_assoc)
  with 1 3 show ?case by simp
qed

lemma enqueueUpdate_queues_updates:
  "updates (fst (enqueueUpdate_queues h f)) = updates h"
  "newUpdate (fst (enqueueUpdate_queues h f)) = newUpdate h"
  by (simp_all add: enqueueUpdate_queues_def createUpdateQueue_def cloneUpdateQueue_def
      writeFiber_def Let_def split: option.splits)

lemma enqueueUpdate_frame:
  "enqueueFrame (fst (enqueueUpdate_queues h f)) (enqueueUpdate h f u)"
proof -
  obtain h1 q1 o2 where eq: "enqueueUpdate_queues h f = (h1, q1, o2)"
    by (cases "enqueueUpdate_queues h f")
  have a: "enqueueFrame h1 (appendUpdateToQueue h1 q u)" for q
    by (rule appendUpdateToQueue_frame)
  have b: "enqueueFrame h1 (appendUpdateToQueue (appendUpdateToQueue h1 q u) q' u)" for q q'
    using a appendUpdateToQueue_frame by (rule enqueueFrame_trans)
  have c: "enqueueFrame h1 (writeQueue (appendUpdateToQueue h1 q u) q'
      (\<lambda>r. r\<lparr>lastUpdate := Some u\<rparr>))" for q q'
    using a writeQueue_lastUpdate_frame by (rule enqueueFrame_trans)
  show ?thesis
    using a b c by (simp add: enqueueUpdate_def eq split: option.splits)
qed

lemma enqueueUpdate_request:
  "request (enqueueUpdate h f u) a = request h a"
  "newUpdate (enqueueUpdate h f u) = newUpdate h"
  using enqueueUpdate_frame [of h f u] enqueueUpdate_queues_updates [of h f]
  by (simp_all add: request_def enqueueFrame_def)

lemma scheduleUpdate_request:
  "newUpdate (fst (scheduleUpdate h f t tg p cb)) = Suc (newUpdate h)"
  "request (fst (scheduleUpdate h f t tg p cb)) (newUpdate h) = (t, tg, p, cb)"
  "a \<noteq> newUpdate h \<Longrightarrow> request (fst (scheduleUpdate h f t tg p cb)) a = request h a"
proof -
  define h2 where "h2 = writeUpdate (fst (createUpdate h t)) (newUpdate h)
    (\<lambda>r. r\<lparr>tag := tg, payload := p, callback := cb\<rparr>)"
  have sch: "fst (scheduleUpdate h f t tg p cb) = enqueueUpdate h2 f (newUpdate h)"
    by (simp add: scheduleUpdate_def createUpdate_def Let_def h2_def)
  have h2: "newUpdate h2 = Suc (newUpdate h)" "request h2 (newUpdate h) = (t, tg, p, cb)"
    "\<And>x. x \<noteq> newUpdate h \<Longrightarrow> request h2 x = request h x"
    by (simp_all add: h2_def createUpdate_def writeUpdate_def Let_def request_def)
  show "newUpdate (fst (scheduleUpdate h f t tg p cb)) = Suc (newUpdate h)"
    "request (fst (scheduleUpdate h f t tg p cb)) (newUpdate h) = (t, tg, p, cb)"
    "a \<noteq> newUpdate h \<Longrightarrow> request (fst (scheduleUpdate h f t tg p cb)) a = request h a"
    by (simp_all add: sch enqueueUpdate_request h2)
qed

lemma processUpdateQueue_request:
  assumes "processUpdateQueue h w q p i r = Some h'"
  shows "newUpdate h' = newUpdate h" and "request h' a = request h a"
proof -
  obtain h1 q' where ens:
    "ensureWorkInProgressQueueIsAClone (h\<lparr>hasForceUpdate := False\<rparr>) w q = (h1, q')"
    by (cases "ensureWorkInProgressQueueIsAClone (h\<lparr>hasForceUpdate := False\<rparr>) w q")
  have fr: "passFrame w q' h1 h'" using ens assms by (rule processUpdateQueue_frame)
  have 1: "updates h1 = updates h" "newUpdate h1 = newUpdate h"
    using ensureWorkInProgressQueueIsAClone_cases [OF ens]
    by (auto simp: cloneUpdateQueue_def writeFiber_def Let_def)
  show "newUpdate h' = newUpdate h" using fr 1 by (simp add: passFrame_def)
  show "request h' a = request h a" using fr 1 by (simp add: passFrame_def request_def)
qed

lemma perform_request:
  assumes "perform h w op = Some h'"
  shows "newUpdate h' = newUpdate h + length (requested [op])"
    and "a < newUpdate h \<Longrightarrow> request h' a = request h a"
    and "map (request h') [newUpdate h..<newUpdate h'] = requested [op]"
proof -
  have "newUpdate h' = newUpdate h + length (requested [op]) \<and>
    (a < newUpdate h \<longrightarrow> request h' a = request h a) \<and>
    map (request h') [newUpdate h..<newUpdate h'] = requested [op]"
  proof (cases op)
    case (Enqueue onAlternate t tg p cb)
    with assms show ?thesis by (auto simp: scheduleUpdate_request Let_def)
  next
    case (Process p i r)
    with assms show ?thesis
      by (auto simp: processUpdateQueue_request split: option.splits)
  qed
  then show "newUpdate h' = newUpdate h + length (requested [op])"
    and "a < newUpdate h \<Longrightarrow> request h' a = request h a"
    and "map (request h') [newUpdate h..<newUpdate h'] = requested [op]"
    by blast+
qed

lemma requested_Cons: "requested (op # ops) = requested [op] @ requested ops"
  by (cases op) simp_all

lemma performAll_request:
  "performAll h w ops = Some h' \<Longrightarrow>
   newUpdate h \<le> newUpdate h' \<and>
   (\<forall>a < newUpdate h. request h' a = request h a) \<and>
   map (request h') [newUpdate h..<newUpdate h'] = requested ops"
proof (induction ops arbitrary: h)
  case Nil
  then show ?case by simp
next
  case (Cons op ops)
  from Cons.prems obtain h1 where 1: "perform h w op = Some h1"
    and 2: "performAll h1 w ops = Some h'"
    by (auto split: option.splits)
  note p = perform_request [OF 1]
  from Cons.IH [OF 2] have le: "newUpdate h1 \<le> newUpdate h'"
    and keep: "\<forall>a < newUpdate h1. request h' a = request h1 a"
    and rest: "map (request h') [newUpdate h1..<newUpdate h'] = requested ops"
    by simp_all
  have le0: "newUpdate h \<le> newUpdate h1" using p(1) by simp
  have "[newUpdate h..<newUpdate h'] = [newUpdate h..<newUpdate h1] @ [newUpdate h1..<newUpdate h']"
    using le0 le upt_add_eq_append [of "newUpdate h" "newUpdate h1" "newUpdate h' - newUpdate h1"]
    by simp
  moreover have "map (request h') [newUpdate h..<newUpdate h1] = requested [op]"
  proof -
    have "map (request h') [newUpdate h..<newUpdate h1] = map (request h1) [newUpdate h..<newUpdate h1]"
      using keep by (intro map_cong) auto
    with p(3) show ?thesis by simp
  qed
  ultimately have "map (request h') [newUpdate h..<newUpdate h'] = requested (op # ops)"
    using rest requested_Cons [of op ops] by simp
  moreover have "\<forall>a < newUpdate h. request h' a = request h a"
    using keep p(2) le0 by auto
  ultimately show ?case using le0 le by simp
qed

lemma nonLoss_commit:
  assumes inv: "nonLoss w s0 n0 ps h" and fq: "fiberUpdateQueue (fibers h w) = Some q"
    and commit: "commitUpdateQueue h w q inst r = Some out"
  shows "\<exists>applied pending.
     memoizedState (fibers (storeOf out) w) = applyEach (storeOf out) s0 applied \<and>
     sorted_wrt (<) (map fst applied) \<and> snd ` set applied \<subseteq> ps \<and>
     updateList (storeOf out) (firstUpdate (queues (storeOf out) q)) pending \<and>
     (\<forall>u. n0 \<le> u \<and> u < newUpdate h \<longrightarrow> u \<in> set (map fst applied) \<or> u \<in> set pending)"
proof -
  from inv obtain trb trm post pa where
    all: "[n0..<newUpdate h] = map fst trb @ post"
    and memo: "memoizedState (fibers h w) = applyEach h s0 trm"
    and sub: "set trb \<subseteq> set trm" and pss: "snd ` set trm \<subseteq> ps"
    and srt: "sorted_wrt (<) (map fst trm)"
    and c: "case fiberUpdateQueue (fibers h w) of
           None \<Rightarrow>
             trb = [] \<and> trm = [] \<and> post = [] \<and> pa = [] \<and>
             (\<forall>a. alternate (fibers h w) = Some a \<longrightarrow> fiberUpdateQueue (fibers h a) = None)
         | Some q \<Rightarrow>
             q < newQueue h \<and> firstCapturedUpdate (queues h q) = None \<and>
             queueList h q post \<and> baseState (queues h q) = applyEach h s0 trb \<and>
             (\<forall>a. alternate (fibers h w) = Some a \<longrightarrow>
                (case fiberUpdateQueue (fibers h a) of
                   None \<Rightarrow> pa = []
                 | Some qa \<Rightarrow> qa < newQueue h \<and> queueList h qa (pa @ post)))"
    unfolding nonLoss_def by (elim exE conjE) (rule that)
  from c fq have nocap: "firstCapturedUpdate (queues h q) = None"
    and ql: "queueList h q post" by simp_all
  have j: "joinCapturedUpdates h q = h" using nocap by (simp add: joinCapturedUpdates_def)
  from commitUpdateQueue_frame [OF commit] have fr: "commitQueueFrame q h (storeOf out)"
    by (simp add: j)
  have 1: "memoizedState (fibers (storeOf out) w) = applyEach (storeOf out) s0 trm"
  proof -
    have "applyEach (storeOf out) s0 trm = applyEach h s0 trm"
      by (rule applyEach_cong) (use fr in \<open>simp add: commitQueueFrame_def\<close>)
    with memo fr show ?thesis by (simp add: commitQueueFrame_def)
  qed
  have "queueList (storeOf out) q post"
    using ql by (rule queueList_cong) (use fr in \<open>simp_all add: commitQueueFrame_def\<close>)
  then have 2: "updateList (storeOf out) (firstUpdate (queues (storeOf out) q)) post"
    by (simp add: queueList_def)
  have 3: "\<forall>u. n0 \<le> u \<and> u < newUpdate h \<longrightarrow> u \<in> set (map fst trm) \<or> u \<in> set post"
  proof (intro allI impI)
    fix u assume "n0 \<le> u \<and> u < newUpdate h"
    then have "u \<in> set [n0..<newUpdate h]" by simp
    then have "u \<in> set (map fst trb) \<or> u \<in> set post" unfolding all by simp
    with sub show "u \<in> set (map fst trm) \<or> u \<in> set post" by auto
  qed
  from 1 srt pss 2 3 show ?thesis
    by (intro exI [of _ trm] exI [of _ post] conjI)
qed

text \<open>
  Claim C1. Take a node \<open>w\<close> with no pending update (\<open>unscheduled\<close>), and any sequence
  of requests to enqueue an update, on the node or on its alternate, and of processing
  passes over the queue of the node. The sequence returns, in a store \<open>h1\<close>; the records
  allocated by it, \<open>newUpdate h, ..., newUpdate h1 - 1\<close>, are the updates that were
  enqueued, in the order of the requests. In every store that \<open>commitUpdateQueue\<close> then
  leaves for the queue of the node (whether it returned or a callback threw), the
  memoized state of the node is its initial state with some of these updates applied, in
  the order of the requests and each with the props and instance of one of the passes,
  the list from \<open>firstUpdate\<close> ends in null, and every enqueued update is among the
  applied ones or on that list.
\<close>

theorem non_loss:
  assumes "unscheduled h w"
  shows "\<exists>h1. performAll h w ops = Some h1 \<and>
     map (request h1) [newUpdate h..<newUpdate h1] = requested ops \<and>
     (\<forall>q out. fiberUpdateQueue (fibers h1 w) = Some q \<and>
        commitUpdateQueue h1 w q inst r = Some out \<longrightarrow>
        (\<exists>applied pending.
           memoizedState (fibers (storeOf out) w) =
             applyEach (storeOf out) (memoizedState (fibers h w)) applied \<and>
           sorted_wrt (<) (map fst applied) \<and> snd ` set applied \<subseteq> passes ops \<and>
           updateList (storeOf out) (firstUpdate (queues (storeOf out) q)) pending \<and>
           (\<forall>u. newUpdate h \<le> u \<and> u < newUpdate h1 \<longrightarrow>
              u \<in> set (map fst applied) \<or> u \<in> set pending)))"
proof -
  from unscheduled_nonLoss [OF assms]
  have "nonLoss w (memoizedState (fibers h w)) (newUpdate h) {} h" .
  from nonLoss_performAll [OF this, of ops] obtain h1 where
    run: "performAll h w ops = Some h1"
    and inv: "nonLoss w (memoizedState (fibers h w)) (newUpdate h) (passes ops) h1"
    by auto
  from performAll_request [OF run]
  have req: "map (request h1) [newUpdate h..<newUpdate h1] = requested ops" by simp
  have "\<exists>applied pending.
           memoizedState (fibers (storeOf out) w) =
             applyEach (storeOf out) (memoizedState (fibers h w)) applied \<and>
           sorted_wrt (<) (map fst applied) \<and> snd ` set applied \<subseteq> passes ops \<and>
           updateList (storeOf out) (firstUpdate (queues (storeOf out) q)) pending \<and>
           (\<forall>u. newUpdate h \<le> u \<and> u < newUpdate h1 \<longrightarrow>
              u \<in> set (map fst applied) \<or> u \<in> set pending)"
    if "fiberUpdateQueue (fibers h1 w) = Some q \<and> commitUpdateQueue h1 w q inst r = Some out"
    for q out
    using nonLoss_commit [OF inv, of q inst r out] that by simp
  with run req show ?thesis by blast
qed

text \<open>
  Fiber 1 of a new pair, with state \<open>""\<close>: A (at 1) and B (at 2) are enqueued on its
  alternate, fiber 1 is processed at 2, C (at 2) is enqueued on fiber 1, and the queue of
  fiber 1 (header 1) is committed. The pass skipped A and applied B: the state is \<open>"B"\<close>,
  and the three records are applied or still on the list.
\<close>

theorem non_loss_witness:
  "unscheduled (pairStore (JStr [])) 1 \<and>
   (\<exists>h1 out applied pending.
      performAll (pairStore (JStr [])) 1
        [Enqueue True 1 ReplaceState (appendLetter ''A'') None,
         Enqueue True 2 ReplaceState (appendLetter ''B'') None,
         Process JNull JNull 2,
         Enqueue False 2 ReplaceState (appendLetter ''C'') None] = Some h1 \<and>
      newUpdate h1 = 3 \<and>
      commitUpdateQueue h1 1 1 JNull 2 = Some out \<and>
      memoizedState (fibers (storeOf out) 1) = JStr ''B'' \<and>
      memoizedState (fibers (storeOf out) 1) = applyEach (storeOf out) (JStr []) applied \<and>
      updateList (storeOf out) (firstUpdate (queues (storeOf out) 1)) pending \<and>
      set [0..<3] \<subseteq> set (map fst applied) \<union> set pending)"
proof -
  define S where "S = pairStore (JStr [])"
  define ops where "ops =
        [Enqueue True 1 ReplaceState (appendLetter ''A'') None,
         Enqueue True 2 ReplaceState (appendLetter ''B'') None,
         Process JNull JNull 2,
         Enqueue False 2 ReplaceState (appendLetter ''C'') None]"
  define H where "H = the (performAll S 1 ops)"
  define out where "out = the (commitUpdateQueue H 1 1 JNull 2)"
  note ev = S_def ops_def pairStore_def store_simps run_simps commit_simps
  have uns: "unscheduled S 1"
    by (simp add: unscheduled_def S_def pairStore_def newStore_def writeFiber_def)
  have s0: "memoizedState (fibers S 1) = JStr []" "newUpdate S = 0"
    by (simp_all add: S_def pairStore_def newStore_def writeFiber_def)
  have run: "performAll S 1 ops = Some H"
    unfolding H_def by (simp add: ev)
  have h: "newUpdate H = 3" "fiberUpdateQueue (fibers H 1) = Some 1"
    unfolding H_def by (simp_all add: ev)
  have commit: "commitUpdateQueue H 1 1 JNull 2 = Some out"
    unfolding out_def H_def by (simp add: ev)
  have m: "memoizedState (fibers (storeOf out) 1) = JStr ''B''"
    unfolding out_def H_def by (simp add: ev storeOf_def)
  from non_loss [OF uns, of ops JNull 2] run h(2) commit
  obtain applied pending where
    1: "memoizedState (fibers (storeOf out) 1) = applyEach (storeOf out) (JStr []) applied"
    and 2: "updateList (storeOf out) (firstUpdate (queues (storeOf out) 1)) pending"
    and 3: "\<forall>u. newUpdate S \<le> u \<and> u < newUpdate H \<longrightarrow>
              u \<in> set (map fst applied) \<or> u \<in> set pending"
    unfolding s0 by auto
  from 3 have 4: "set [0..<3] \<subseteq> set (map fst applied) \<union> set pending"
    unfolding s0 h by auto
  from uns run h(1) commit m 1 2 4 show ?thesis
    unfolding S_def ops_def by blast
qed

end
